theory Spec2Isabelle
  imports Complex_Main "HOL-Library.Word"
begin

unbundle bit_operations_syntax

section \<open>Pixel buffers\<close>

text \<open>
  The processor works on Go's \<^verbatim>\<open>image.Image\<close> interface. A \<^verbatim>\<open>color.Color\<close> value is
  observed by the code only through its method \<^verbatim>\<open>RGBA()\<close>, which returns four
  \<^verbatim>\<open>uint32\<close> channel values (alpha-premultiplied, each in the 16-bit range), so a
  colour is modelled by that result. The concrete \<^verbatim>\<open>color.RGBA\<close> struct, which is what
  an \<^verbatim>\<open>*image.RGBA\<close> buffer stores, keeps one byte per channel.
\<close>

type_synonym color = "32 word \<times> 32 word \<times> 32 word \<times> 32 word"

record color_RGBA =
  R :: "8 word"
  G :: "8 word"
  B :: "8 word"
  A :: "8 word"

text \<open>\<^verbatim>\<open>func (c RGBA) RGBA()\<close>: each byte \<open>v\<close> is widened to \<open>v | v << 8\<close>.\<close>

definition widen :: "8 word \<Rightarrow> 32 word" where
  "widen v = (ucast v) OR (push_bit 8 (ucast v))"

definition RGBA_of :: "color_RGBA \<Rightarrow> color" where
  "RGBA_of c = (widen (R c), widen (G c), widen (B c), widen (A c))"

text \<open>
  \<^verbatim>\<open>color.RGBAModel.Convert\<close>: a colour that already is a \<^verbatim>\<open>color.RGBA\<close> is returned
  unchanged, any other is narrowed to the high byte of each channel. On the widened
  value of a \<^verbatim>\<open>color.RGBA\<close> the narrowing returns the bytes it was built from
  (lemma \<open>rgbaModel_RGBA_of\<close>), so the one definition covers both branches.
\<close>

definition rgbaModel :: "color \<Rightarrow> color_RGBA" where
  "rgbaModel c = (case c of (r, g, b, a) \<Rightarrow>
     \<lparr>R = ucast (drop_bit 8 r), G = ucast (drop_bit 8 g),
      B = ucast (drop_bit 8 b), A = ucast (drop_bit 8 a)\<rparr>)"

record rectangle =
  MinX :: int
  MinY :: int
  MaxX :: int
  MaxY :: int

text \<open>\<^verbatim>\<open>image.Rect\<close> orders its corners.\<close>

definition Rect_of :: "int \<Rightarrow> int \<Rightarrow> int \<Rightarrow> int \<Rightarrow> rectangle" where
  "Rect_of x0 y0 x1 y1 =
     \<lparr>MinX = (if x0 > x1 then x1 else x0), MinY = (if y0 > y1 then y1 else y0),
      MaxX = (if x0 > x1 then x0 else x1), MaxY = (if y0 > y1 then y0 else y1)\<rparr>"

text \<open>\<^verbatim>\<open>Point.In\<close>.\<close>

definition In :: "int \<Rightarrow> int \<Rightarrow> rectangle \<Rightarrow> bool" where
  "In x y r = (MinX r \<le> x \<and> x < MaxX r \<and> MinY r \<le> y \<and> y < MaxY r)"

definition Dx :: "rectangle \<Rightarrow> int" where
  "Dx r = MaxX r - MinX r"

definition Dy :: "rectangle \<Rightarrow> int" where
  "Dy r = MaxY r - MinY r"

text \<open>An \<^verbatim>\<open>image.Image\<close>: its bounds and its pixel lookup.\<close>

record image =
  Bounds :: rectangle
  At :: "int \<Rightarrow> int \<Rightarrow> color"

text \<open>
  An \<^verbatim>\<open>*image.RGBA\<close>: the rectangle and the pixel store. The byte slice and its
  stride are abstracted to a lookup by coordinates.
\<close>

record image_RGBA =
  Rect :: rectangle
  Pix :: "int \<Rightarrow> int \<Rightarrow> color_RGBA"

definition transparent :: color_RGBA where
  "transparent = \<lparr>R = 0, G = 0, B = 0, A = 0\<rparr>"

text \<open>\<^verbatim>\<open>image.NewRGBA\<close> allocates a zeroed buffer.\<close>

definition NewRGBA :: "rectangle \<Rightarrow> image_RGBA" where
  "NewRGBA r = \<lparr>Rect = r, Pix = (\<lambda>x y. transparent)\<rparr>"

text \<open>\<^verbatim>\<open>(*RGBA).Set\<close> ignores points outside the rectangle and converts the colour.\<close>

definition Set_px :: "image_RGBA \<Rightarrow> int \<Rightarrow> int \<Rightarrow> color \<Rightarrow> image_RGBA" where
  "Set_px p x y c =
     (if \<not> In x y (Rect p) then p
      else p\<lparr>Pix := (\<lambda>u v. if u = x \<and> v = y then rgbaModel c else Pix p u v)\<rparr>)"

text \<open>\<^verbatim>\<open>(*RGBA).RGBAAt\<close> returns the zero colour outside the rectangle.\<close>

definition RGBAAt :: "image_RGBA \<Rightarrow> int \<Rightarrow> int \<Rightarrow> color_RGBA" where
  "RGBAAt p x y = (if \<not> In x y (Rect p) then transparent else Pix p x y)"

text \<open>An \<^verbatim>\<open>*image.RGBA\<close> used through the \<^verbatim>\<open>image.Image\<close> interface.\<close>

definition as_image :: "image_RGBA \<Rightarrow> image" where
  "as_image p = \<lparr>Bounds = Rect p, At = (\<lambda>x y. RGBA_of (RGBAAt p x y))\<rparr>"

section \<open>Bounds detection and cropping\<close>

text \<open>The test of \<^verbatim>\<open>cropTransparentAreas\<close>: \<^verbatim>\<open>a > 0 || r > 0 || g > 0 || b > 0\<close>.\<close>

definition is_content :: "color \<Rightarrow> bool" where
  "is_content c = (case c of (r, g, b, a) \<Rightarrow> a > 0 \<or> r > 0 \<or> g > 0 \<or> b > 0)"

record scan_state =
  minX :: int
  minY :: int
  maxX :: int
  maxY :: int
  foundContent :: bool

text \<open>The body of the inner scanning loop.\<close>

definition visit :: "image \<Rightarrow> int \<Rightarrow> int \<Rightarrow> scan_state \<Rightarrow> scan_state" where
  "visit img x y s =
     (if is_content (At img x y) then
        s\<lparr>minX := (if x < minX s then x else minX s),
          maxX := (if x > maxX s then x else maxX s),
          minY := (if y < minY s then y else minY s),
          maxY := (if y > maxY s then y else maxY s),
          foundContent := True\<rparr>
      else s)"

function scan_row :: "image \<Rightarrow> int \<Rightarrow> int \<Rightarrow> scan_state \<Rightarrow> scan_state" where
  "scan_row img y x s =
     (if x < MaxX (Bounds img) then scan_row img y (x + 1) (visit img x y s) else s)"
  by pat_completeness auto
termination
  by (relation "measure (\<lambda>(img, y, x, s). nat (MaxX (Bounds img) - x))") auto

function scan_rows :: "image \<Rightarrow> int \<Rightarrow> scan_state \<Rightarrow> scan_state" where
  "scan_rows img y s =
     (if y < MaxY (Bounds img)
      then scan_rows img (y + 1) (scan_row img y (MinX (Bounds img)) s) else s)"
  by pat_completeness auto
termination
  by (relation "measure (\<lambda>(img, y, s). nat (MaxY (Bounds img) - y))") auto

declare scan_row.simps [simp del] scan_rows.simps [simp del]

definition scan_init :: "image \<Rightarrow> scan_state" where
  "scan_init img =
     \<lparr>minX = MaxX (Bounds img), minY = MaxY (Bounds img),
      maxX = MinX (Bounds img), maxY = MinY (Bounds img), foundContent = False\<rparr>"

definition find_bounds :: "image \<Rightarrow> scan_state" where
  "find_bounds img = scan_rows img (MinY (Bounds img)) (scan_init img)"

text \<open>The copying loops; \<open>s\<close> holds the bounds found by the scan.\<close>

function copy_row :: "image \<Rightarrow> scan_state \<Rightarrow> int \<Rightarrow> int \<Rightarrow> image_RGBA \<Rightarrow> image_RGBA" where
  "copy_row img s y x croppedImg =
     (if x \<le> maxX s
      then copy_row img s y (x + 1) (Set_px croppedImg (x - minX s) (y - minY s) (At img x y))
      else croppedImg)"
  by pat_completeness auto
termination
  by (relation "measure (\<lambda>(img, s, y, x, c). nat (maxX s + 1 - x))") auto

function copy_rows :: "image \<Rightarrow> scan_state \<Rightarrow> int \<Rightarrow> image_RGBA \<Rightarrow> image_RGBA" where
  "copy_rows img s y croppedImg =
     (if y \<le> maxY s
      then copy_rows img s (y + 1) (copy_row img s y (minX s) croppedImg)
      else croppedImg)"
  by pat_completeness auto
termination
  by (relation "measure (\<lambda>(img, s, y, c). nat (maxY s + 1 - y))") auto

declare copy_row.simps [simp del] copy_rows.simps [simp del]

definition cropTransparentAreas :: "image \<Rightarrow> image_RGBA" where
  "cropTransparentAreas img =
     (let s = find_bounds img in
      if \<not> foundContent s then NewRGBA (Rect_of 0 0 1 1)
      else copy_rows img s (minY s)
             (NewRGBA (Rect_of 0 0 (maxX s - minX s + 1) (maxY s - minY s + 1))))"

section \<open>Floating-point numbers\<close>

text \<open>
  A finite \<^verbatim>\<open>float32\<close> or \<^verbatim>\<open>float64\<close> value is modelled by the rational number it
  denotes. Every arithmetic operation and every conversion to a floating-point type
  rounds its exact result to the nearest representable value, ties to even (IEEE 754),
  with a significand of \<open>p\<close> bits and a least exponent \<open>emin\<close>. The scale of the
  rasterizer, which the code compares before it computes with it, is a \<open>go_float\<close>
  (below): a finite value, an infinity or NaN. The factor and the quality of the scale
  operation are modelled at their finite values.
\<close>

lemma floor_half_less:
  assumes "1 \<le> (y::rat)" shows "\<lfloor>y / 2\<rfloor> < \<lfloor>y\<rfloor>"
proof (cases "y < 2")
  case True
  then have "\<lfloor>y / 2\<rfloor> = 0" using assms by (simp add: floor_eq_iff)
  moreover have "1 \<le> \<lfloor>y\<rfloor>" using assms by (simp add: le_floor_iff)
  ultimately show ?thesis by simp
next
  case False
  have "of_int \<lfloor>y / 2\<rfloor> \<le> y / 2" by (rule of_int_floor_le)
  then have "of_int (\<lfloor>y / 2\<rfloor> + 1) \<le> y" using False by simp
  then have "\<lfloor>y / 2\<rfloor> + 1 \<le> \<lfloor>y\<rfloor>" by (simp only: le_floor_iff)
  then show ?thesis by simp
qed

text \<open>The exponent of the leading bit of \<open>q \<ge> 1\<close>, by repeated halving.\<close>

function lg_up :: "rat \<Rightarrow> nat" where
  "lg_up q = (if q < 2 then 0 else Suc (lg_up (q / 2)))"
  by pat_completeness auto
termination
proof (relation "measure (\<lambda>q. nat \<lfloor>q\<rfloor>)")
  show "wf (measure (\<lambda>q. nat \<lfloor>q\<rfloor>))" by simp
next
  fix q :: rat assume "\<not> q < 2"
  then have "1 \<le> q" by simp
  from floor_half_less [OF this] have "\<lfloor>q / 2\<rfloor> < \<lfloor>q\<rfloor>" .
  moreover have "0 < \<lfloor>q\<rfloor>"
    using \<open>1 \<le> q\<close> by (simp add: less_floor_iff flip: int_one_le_iff_zero_less)
  ultimately show "(q / 2, q) \<in> measure (\<lambda>q. nat \<lfloor>q\<rfloor>)" by simp
qed

text \<open>The number of doublings that bring \<open>0 < q < 1\<close> to \<open>1\<close> or above.\<close>

function lg_down :: "rat \<Rightarrow> nat" where
  "lg_down q = (if 1 \<le> q \<or> q \<le> 0 then 0 else Suc (lg_down (2 * q)))"
  by pat_completeness auto
termination
proof (relation "measure (\<lambda>q. nat \<lfloor>1 / q\<rfloor>)")
  show "wf (measure (\<lambda>q. nat \<lfloor>1 / q\<rfloor>))" by simp
next
  fix q :: rat assume "\<not> (1 \<le> q \<or> q \<le> 0)"
  then have q: "0 < q" "q < 1" by simp_all
  then have "1 \<le> 1 / q" by simp
  from floor_half_less [OF this] have "\<lfloor>1 / q / 2\<rfloor> < \<lfloor>1 / q\<rfloor>" .
  moreover have "0 < \<lfloor>1 / q\<rfloor>"
    using \<open>1 \<le> 1 / q\<close> by (simp add: less_floor_iff flip: int_one_le_iff_zero_less)
  ultimately show "(2 * q, q) \<in> measure (\<lambda>q. nat \<lfloor>1 / q\<rfloor>)"
    by (simp add: mult.commute)
qed

declare lg_up.simps [simp del] lg_down.simps [simp del]

definition ilog2 :: "rat \<Rightarrow> int" where
  "ilog2 q = (if 1 \<le> q then int (lg_up q) else - int (lg_down q))"

text \<open>Rounding to the nearest integer, ties to the even one.\<close>

definition round_even :: "rat \<Rightarrow> int" where
  "round_even q =
     (let f = \<lfloor>q\<rfloor>; d = q - of_int f
      in if d < 1 / 2 then f else if 1 / 2 < d then f + 1 else if even f then f else f + 1)"

definition fl_round :: "nat \<Rightarrow> int \<Rightarrow> rat \<Rightarrow> rat" where
  "fl_round p emin q =
     (if q = 0 then 0
      else let u = 2 powi (max (ilog2 \<bar>q\<bar>) emin - int p + 1)
           in of_int (round_even (q / u)) * u)"

definition float32 :: "rat \<Rightarrow> rat" where
  "float32 q = fl_round 24 (- 126) q"

definition float64 :: "rat \<Rightarrow> rat" where
  "float64 q = fl_round 53 (- 1022) q"

text \<open>
  The conversion \<^verbatim>\<open>int(f)\<close> discards the fraction. (For a value outside the range of
  \<^verbatim>\<open>int\<close> Go leaves the result to the implementation; Go's \<^verbatim>\<open>int\<close> is modelled by
  the integers, and the sizes of buffers that fit in memory stay far inside its range.)
\<close>

definition go_int :: "rat \<Rightarrow> int" where
  "go_int q = (if 0 \<le> q then \<lfloor>q\<rfloor> else \<lceil>q\<rceil>)"

text \<open>
  A \<^verbatim>\<open>float32\<close> as a caller can pass it (the flag parser accepts \<^verbatim>\<open>NaN\<close> and
  \<^verbatim>\<open>Inf\<close>), and the comparison \<^verbatim>\<open><\<close> of IEEE 754, which is false whenever an
  operand is NaN.
\<close>

datatype go_float = Finite rat | PosInf | NegInf | NaN

fun fl_less :: "go_float \<Rightarrow> go_float \<Rightarrow> bool" where
  "fl_less (Finite a) (Finite b) = (a < b)"
| "fl_less (Finite a) PosInf = True"
| "fl_less NegInf (Finite b) = True"
| "fl_less NegInf PosInf = True"
| "fl_less a b = False"

text \<open>Whether a caller's value is one a \<^verbatim>\<open>float32\<close> can hold.\<close>

fun is_float32 :: "go_float \<Rightarrow> bool" where
  "is_float32 (Finite r) = (float32 r = r)"
| "is_float32 a = True"

section \<open>Paths and names\<close>

text \<open>
  The byte loop of \<^verbatim>\<open>strings.ToLower\<close> for a string of ASCII bytes: the letters
  \<open>A\<close> to \<open>Z\<close> are moved to \<open>a\<close> to \<open>z\<close>.
\<close>

definition lower_char :: "char \<Rightarrow> char" where
  "lower_char c =
     (let n = (of_char c :: nat) in if 65 \<le> n \<and> n \<le> 90 then char_of (n + 32) else c)"

text \<open>
  \<^verbatim>\<open>filepath.Ext\<close>: the suffix from the last dot of the last path element, scanning
  from the end and stopping at a separator.
\<close>

fun ext_scan :: "string \<Rightarrow> string \<Rightarrow> string" where
  "ext_scan [] acc = []"
| "ext_scan (c # cs) acc =
     (if c = CHR ''/'' then [] else if c = CHR ''.'' then c # acc else ext_scan cs (c # acc))"

definition Ext :: "string \<Rightarrow> string" where
  "Ext path = ext_scan (rev path) []"

section \<open>Effects and the outside world\<close>

datatype error =
    OpenFailed
  | ReadFailed
  | ParseFailed
  | DecodeFailed
  | FailedToLoadSVG error
  | FailedToLoadImage error
  | UnsupportedAlgorithm string
  | FailedToCreateDirectory
  | FailedToCreateFile
  | FailedWebPOptions
  | UnsupportedFormat string
  | FailedToEncode
  | Panicked

datatype message =
    LoadingSVG
  | RenderingSVG rat rat go_float
  | SVGConverted
  | ScalingFromTo int int int int
  | OutputFileSize

datatype encoding = PNG | JPEG int | WebP rat

text \<open>
  What an operation does to the outside, in order. An event records the attempt, whether
  or not it succeeds; \<open>MkdirAll p\<close> is the creation of the directory of the path \<open>p\<close>.
\<close>

datatype event =
    OpenFile string
  | Stdout message
  | MkdirAll string
  | CreateFile string
  | Encode string encoding

text \<open>A parsed \<^verbatim>\<open>oksvg.SvgIcon\<close>: its view box and its drawing content.\<close>

record icon =
  ViewBox_W :: rat
  ViewBox_H :: rat
  SVGPaths :: string

datatype resample_filter = NearestNeighbor | Linear | CatmullRom | Lanczos

text \<open>
  The file system and the libraries the processor calls, as parameters:
  \<^item> \<open>read_icon\<close>: opening, reading and parsing an SVG file;
  \<^item> \<open>draw\<close>: \<^verbatim>\<open>icon.SetTarget\<close> and \<^verbatim>\<open>icon.Draw\<close> through the rasterx scanner, which
    writes pixels of the canvas (the result is the new pixel store);
  \<^item> \<open>decode_file\<close>: opening and decoding a raster file;
  \<^item> \<open>resize\<close>: \<^verbatim>\<open>imaging.Resize\<close>;
  \<^item> \<open>mkdir_ok\<close>, \<open>create_ok\<close>, \<open>webp_options_ok\<close>, \<open>encode_ok\<close>, \<open>stat_ok\<close>: whether
    \<^verbatim>\<open>os.MkdirAll\<close>, \<^verbatim>\<open>os.Create\<close>, \<^verbatim>\<open>encoder.NewLossyEncoderOptions\<close>, the encoder
    and \<^verbatim>\<open>File.Stat\<close> succeed;
  \<^item> \<open>unicode_lower\<close>: \<^verbatim>\<open>strings.Map(unicode.ToLower, s)\<close>, the branch of
    \<^verbatim>\<open>strings.ToLower\<close> for a string with a byte outside ASCII: it decodes UTF-8 and
    maps each code point by the Unicode case tables, which send for instance U+0130 to
    \<open>i\<close> and U+212A to \<open>k\<close>;
  \<^item> \<open>nan_outcome\<close>: what rendering an icon yields when the scale is NaN. The code then
    converts NaN to \<^verbatim>\<open>int\<close> for the size of the canvas, which Go leaves to the
    implementation; where the allocation panics the outcome is \<open>Inl Panicked\<close>.
\<close>

record env =
  read_icon :: "string \<Rightarrow> error + icon"
  draw :: "icon \<Rightarrow> rat \<Rightarrow> rat \<Rightarrow> image_RGBA \<Rightarrow> int \<Rightarrow> int \<Rightarrow> color_RGBA"
  decode_file :: "string \<Rightarrow> error + image"
  resize :: "image \<Rightarrow> int \<Rightarrow> int \<Rightarrow> resample_filter \<Rightarrow> image"
  mkdir_ok :: "string \<Rightarrow> bool"
  create_ok :: "string \<Rightarrow> bool"
  webp_options_ok :: "rat \<Rightarrow> bool"
  encode_ok :: "string \<Rightarrow> encoding \<Rightarrow> bool"
  stat_ok :: "string \<Rightarrow> bool"
  unicode_lower :: "string \<Rightarrow> string"
  nan_outcome :: "icon \<Rightarrow> error + image_RGBA"

text \<open>
  \<^verbatim>\<open>strings.ToLower\<close>: a string of ASCII bytes is lowered byte by byte, any other
  string goes through the Unicode mapping.
\<close>

definition ToLower :: "env \<Rightarrow> string \<Rightarrow> string" where
  "ToLower e s =
     (if list_all (\<lambda>c. (of_char c :: nat) < 128) s then map lower_char s
      else unicode_lower e s)"

section \<open>Vector rasterization\<close>

text \<open>The clamp of \<^verbatim>\<open>loadSVGWithScale\<close>: two tests in sequence.\<close>

definition clamp_scale :: "go_float \<Rightarrow> go_float" where
  "clamp_scale scale =
     (let scale1 = (if fl_less scale (Finite 1) then Finite 1 else scale)
      in if fl_less (Finite 4) scale1 then Finite 4 else scale1)"

text \<open>The view box, or 512 by 512 when one side is zero.\<close>

definition intrinsic_size :: "icon \<Rightarrow> rat \<times> rat" where
  "intrinsic_size ic =
     (if ViewBox_W ic = 0 \<or> ViewBox_H ic = 0 then (512, 512) else (ViewBox_W ic, ViewBox_H ic))"

text \<open>The loops that initialise the working canvas.\<close>

function fill_row :: "int \<Rightarrow> int \<Rightarrow> int \<Rightarrow> image_RGBA \<Rightarrow> image_RGBA" where
  "fill_row renderWidth y x img =
     (if x < renderWidth
      then fill_row renderWidth y (x + 1) (Set_px img x y (RGBA_of transparent))
      else img)"
  by pat_completeness auto
termination
  by (relation "measure (\<lambda>(w, y, x, img). nat (w - x))") auto

function fill_rows :: "int \<Rightarrow> int \<Rightarrow> int \<Rightarrow> image_RGBA \<Rightarrow> image_RGBA" where
  "fill_rows renderWidth renderHeight y img =
     (if y < renderHeight
      then fill_rows renderWidth renderHeight (y + 1) (fill_row renderWidth y 0 img)
      else img)"
  by pat_completeness auto
termination
  by (relation "measure (\<lambda>(w, h, y, img). nat (h - y))") auto

text \<open>
  The source coordinate \<^verbatim>\<open>int(float64(x) * float64(scale))\<close> and the body of the
  downsampling loops: \<open>w\<close> and \<open>h\<close> are \<^verbatim>\<open>int(width)\<close> and \<^verbatim>\<open>int(height)\<close>,
  \<open>img\<close> is the working canvas.
\<close>

definition src_coord :: "rat \<Rightarrow> int \<Rightarrow> int" where
  "src_coord scale x = go_int (float64 (float64 (of_int x) * scale))"

definition sample_px ::
  "rat \<Rightarrow> int \<Rightarrow> int \<Rightarrow> image_RGBA \<Rightarrow> int \<Rightarrow> int \<Rightarrow> image_RGBA \<Rightarrow> image_RGBA" where
  "sample_px scale renderWidth renderHeight img x y finalImg =
     (let srcX = src_coord scale x;
          srcY = src_coord scale y
      in if srcX < renderWidth \<and> srcY < renderHeight
         then Set_px finalImg x y (At (as_image img) srcX srcY)
         else finalImg)"

function sample_row ::
  "rat \<Rightarrow> int \<Rightarrow> int \<Rightarrow> int \<Rightarrow> image_RGBA \<Rightarrow> int \<Rightarrow> int \<Rightarrow> image_RGBA \<Rightarrow> image_RGBA" where
  "sample_row scale w renderWidth renderHeight img y x finalImg =
     (if x < w
      then sample_row scale w renderWidth renderHeight img y (x + 1)
             (sample_px scale renderWidth renderHeight img x y finalImg)
      else finalImg)"
  by pat_completeness auto
termination
  by (relation "measure (\<lambda>(s, w, rw, rh, img, y, x, f). nat (w - x))") auto

function sample_rows ::
  "rat \<Rightarrow> int \<Rightarrow> int \<Rightarrow> int \<Rightarrow> int \<Rightarrow> image_RGBA \<Rightarrow> int \<Rightarrow> image_RGBA \<Rightarrow> image_RGBA" where
  "sample_rows scale w h renderWidth renderHeight img y finalImg =
     (if y < h
      then sample_rows scale w h renderWidth renderHeight img (y + 1)
             (sample_row scale w renderWidth renderHeight img y 0 finalImg)
      else finalImg)"
  by pat_completeness auto
termination
  by (relation "measure (\<lambda>(s, w, h, rw, rh, img, y, f). nat (h - y))") auto

declare fill_row.simps [simp del] fill_rows.simps [simp del]
declare sample_row.simps [simp del] sample_rows.simps [simp del]

text \<open>
  The canvas after rendering, before the final downsampling: allocated at
  \<^verbatim>\<open>int(width * scale)\<close> by \<^verbatim>\<open>int(height * scale)\<close>, cleared, drawn on.
\<close>

definition working_canvas :: "env \<Rightarrow> icon \<Rightarrow> rat \<Rightarrow> image_RGBA" where
  "working_canvas e ic scale =
     (let (width, height) = intrinsic_size ic;
          renderWidth = go_int (float64 (width * scale));
          renderHeight = go_int (float64 (height * scale));
          img = fill_rows renderWidth renderHeight 0
                  (NewRGBA (Rect_of 0 0 renderWidth renderHeight))
      in img\<lparr>Pix := draw e ic (float64 (width * scale)) (float64 (height * scale)) img\<rparr>)"

text \<open>Rendering a parsed icon at a scale that is already settled.\<close>

definition rasterize :: "env \<Rightarrow> icon \<Rightarrow> rat \<Rightarrow> image_RGBA" where
  "rasterize e ic scale =
     (let (width, height) = intrinsic_size ic;
          renderWidth = go_int (float64 (width * scale));
          renderHeight = go_int (float64 (height * scale));
          img = working_canvas e ic scale
      in if scale \<noteq> 1
         then sample_rows scale (go_int width) (go_int height) renderWidth renderHeight img 0
                (NewRGBA (Rect_of 0 0 (go_int width) (go_int height)))
         else img)"

text \<open>The messages and the file access of the two loaders, up to the rendering.\<close>

definition read_events :: "string \<Rightarrow> error \<Rightarrow> event list" where
  "read_events path err =
     OpenFile path # (if err = ParseFailed then [Stdout LoadingSVG] else [])"

text \<open>
  \<^verbatim>\<open>loadSVGWithScale\<close>. After the two tests the scale is finite or still NaN; a
  finite scale is rendered by \<open>rasterize\<close>, at NaN the outcome is the platform's.
\<close>

definition loadSVGWithScale ::
  "env \<Rightarrow> string \<Rightarrow> go_float \<Rightarrow> (error + image_RGBA) \<times> event list" where
  "loadSVGWithScale e path scale =
     (case read_icon e path of
        Inl err \<Rightarrow> (Inl err, read_events path err)
      | Inr ic \<Rightarrow>
          (let scale' = clamp_scale scale; (width, height) = intrinsic_size ic;
               evs = [OpenFile path, Stdout LoadingSVG,
                      Stdout (RenderingSVG width height scale')]
           in case scale' of
                Finite s \<Rightarrow> (Inr (rasterize e ic s), evs @ [Stdout SVGConverted])
              | _ \<Rightarrow>
                  (case nan_outcome e ic of
                     Inl err \<Rightarrow> (Inl err, evs)
                   | Inr img \<Rightarrow> (Inr img, evs @ [Stdout SVGConverted]))))"

text \<open>\<^verbatim>\<open>loadSVG\<close> is the same rendering at the fixed scale 2.\<close>

definition loadSVG :: "env \<Rightarrow> string \<Rightarrow> (error + image_RGBA) \<times> event list" where
  "loadSVG e path =
     (case read_icon e path of
        Inl err \<Rightarrow> (Inl err, read_events path err)
      | Inr ic \<Rightarrow>
          (let (width, height) = intrinsic_size ic
           in (Inr (rasterize e ic 2),
               [OpenFile path, Stdout LoadingSVG, Stdout (RenderingSVG width height (Finite 2)),
                Stdout SVGConverted])))"

definition LoadImage :: "env \<Rightarrow> string \<Rightarrow> (error + image) \<times> event list" where
  "LoadImage e path =
     (if ToLower e (Ext path) = ''.svg''
      then (case loadSVG e path of
              (Inl err, evs) \<Rightarrow> (Inl err, evs)
            | (Inr img, evs) \<Rightarrow> (Inr (as_image img), evs))
      else (decode_file e path, [OpenFile path]))"

section \<open>Scaling\<close>

text \<open>
  The target dimensions of \<^verbatim>\<open>ScaleImage\<close>. With a side of length zero the aspect
  ratio is a division by zero, whose result is not a number or infinite: its conversion
  to \<^verbatim>\<open>int\<close> is left to the implementation, which is the result \<open>None\<close>.
\<close>

definition target_dims :: "int \<Rightarrow> int \<Rightarrow> rat \<Rightarrow> int \<Rightarrow> int \<Rightarrow> (int \<times> int) option" where
  "target_dims originalWidth originalHeight factor width height =
     (if factor \<noteq> 0 then
        Some (go_int (float32 (float32 (of_int originalWidth) * factor)),
              go_int (float32 (float32 (of_int originalHeight) * factor)))
      else if width \<noteq> 0 \<and> height \<noteq> 0 then Some (width, height)
      else if width \<noteq> 0 then
        (if originalWidth = 0 then None
         else let aspectRatio =
                float32 (float32 (of_int originalHeight) / float32 (of_int originalWidth))
              in Some (width, go_int (float32 (float32 (of_int width) * aspectRatio))))
      else if height \<noteq> 0 then
        (if originalHeight = 0 then None
         else let aspectRatio =
                float32 (float32 (of_int originalWidth) / float32 (of_int originalHeight))
              in Some (go_int (float32 (float32 (of_int height) * aspectRatio)), height))
      else Some (0, 0))"

text \<open>The \<^verbatim>\<open>switch\<close> on the lowercased algorithm name; \<open>None\<close> is its default branch.\<close>

definition pick_filter :: "env \<Rightarrow> string \<Rightarrow> resample_filter option" where
  "pick_filter e algorithm =
     (let a = ToLower e algorithm
      in if a = ''nearest'' then Some NearestNeighbor
         else if a = ''bilinear'' \<or> a = ''linear'' then Some Linear
         else if a = ''bicubic'' \<or> a = ''cubic'' then Some CatmullRom
         else if a = ''lanczos'' then Some Lanczos
         else None)"

text \<open>The integer quality handed to the JPEG encoder by \<^verbatim>\<open>saveImage\<close>.\<close>

definition jpegQuality :: "rat \<Rightarrow> int" where
  "jpegQuality quality =
     (let q = go_int quality;
          q1 = (if q < 1 then 90 else q)
      in if q1 > 100 then 100 else q1)"

text \<open>The encoder chosen by the extension of the output path, if it is supported.\<close>

definition pick_encoding :: "string \<Rightarrow> rat \<Rightarrow> encoding option" where
  "pick_encoding ext quality =
     (if ext = ''.png'' then Some PNG
      else if ext = ''.jpg'' \<or> ext = ''.jpeg'' then Some (JPEG (jpegQuality quality))
      else if ext = ''.webp'' then Some (WebP quality)
      else None)"

definition saveImage :: "env \<Rightarrow> image \<Rightarrow> string \<Rightarrow> rat \<Rightarrow> error option \<times> event list" where
  "saveImage e img outputPath quality =
     (if \<not> mkdir_ok e outputPath then (Some FailedToCreateDirectory, [MkdirAll outputPath])
      else if \<not> create_ok e outputPath
        then (Some FailedToCreateFile, [MkdirAll outputPath, CreateFile outputPath])
      else let ext = ToLower e (Ext outputPath) in
        (case pick_encoding ext quality of
           None \<Rightarrow> (Some (UnsupportedFormat ext), [MkdirAll outputPath, CreateFile outputPath])
         | Some enc \<Rightarrow>
             if ext = ''.webp'' \<and> \<not> webp_options_ok e quality
             then (Some FailedWebPOptions, [MkdirAll outputPath, CreateFile outputPath])
             else if \<not> encode_ok e outputPath enc
             then (Some FailedToEncode,
                   [MkdirAll outputPath, CreateFile outputPath, Encode outputPath enc])
             else (None,
                   [MkdirAll outputPath, CreateFile outputPath, Encode outputPath enc]
                   @ (if stat_ok e outputPath then [Stdout OutputFileSize] else []))))"

text \<open>
  Loading at the start of \<^verbatim>\<open>ScaleImage\<close>, with the wrapping of a returned error; a
  panic is not a returned error and passes unwrapped.
\<close>

definition load_input :: "env \<Rightarrow> string \<Rightarrow> go_float \<Rightarrow> (error + image) \<times> event list" where
  "load_input e inputPath svgScale =
     (if ToLower e (Ext inputPath) = ''.svg''
      then (case loadSVGWithScale e inputPath svgScale of
              (Inl err, evs) \<Rightarrow>
                (Inl (if err = Panicked then Panicked else FailedToLoadSVG err), evs)
            | (Inr img, evs) \<Rightarrow> (Inr (as_image img), evs))
      else (case LoadImage e inputPath of
              (Inl err, evs) \<Rightarrow> (Inl (FailedToLoadImage err), evs)
            | (Inr img, evs) \<Rightarrow> (Inr img, evs)))"

text \<open>
  \<^verbatim>\<open>ScaleImage\<close>: the returned error (\<open>None\<close> is \<^verbatim>\<open>nil\<close>) and the effects in order.
  \<open>dflt\<close> stands for the dimensions the platform yields where \<open>target_dims\<close> does
  not determine them.
\<close>

definition ScaleImage ::
  "env \<Rightarrow> int \<times> int \<Rightarrow> string \<Rightarrow> string \<Rightarrow> rat \<Rightarrow> int \<Rightarrow> int \<Rightarrow> string \<Rightarrow> rat \<Rightarrow> go_float
     \<Rightarrow> error option \<times> event list" where
  "ScaleImage e dflt inputPath outputPath factor width height algorithm quality svgScale =
     (case load_input e inputPath svgScale of
        (Inl err, evs) \<Rightarrow> (Some err, evs)
      | (Inr img, evs) \<Rightarrow>
          (let originalWidth = Dx (Bounds img);
               originalHeight = Dy (Bounds img);
               (targetWidth, targetHeight) =
                 (case target_dims originalWidth originalHeight factor width height of
                    Some d \<Rightarrow> d | None \<Rightarrow> dflt);
               evs1 = evs @ [Stdout (ScalingFromTo originalWidth originalHeight
                                       targetWidth targetHeight)]
           in case pick_filter e algorithm of
                None \<Rightarrow> (Some (UnsupportedAlgorithm algorithm), evs1)
              | Some flt \<Rightarrow>
                  (case saveImage e (resize e img targetWidth targetHeight flt)
                          outputPath quality of
                     (r, evs2) \<Rightarrow> (r, evs1 @ evs2))))"

section \<open>The target dimensions in the words of the specification\<close>


section \<open>Sample inputs\<close>


text \<open>
  The UTF-8 bytes of \<open>linear\<close> written with U+0130, the capital I with a dot, for its
  second letter.
\<close>

definition dotted_linear :: string where
  "dotted_linear =
     [CHR ''l'', CHR 0xC4, CHR 0xB0, CHR ''n'', CHR ''e'', CHR ''a'', CHR ''r'']"


text \<open>
  A one-pixel opaque white image, a world in which every file operation succeeds and
  every input path decodes to that image, and the same world without the input file. In
  it the Unicode mapping lowers \<open>dotted_linear\<close> as Go does and leaves other strings
  alone, and rendering at a NaN scale panics.
\<close>

definition img1 :: image where
  "img1 = \<lparr>Bounds = Rect_of 0 0 1 1, At = (\<lambda>x y. (0xFFFF, 0xFFFF, 0xFFFF, 0xFFFF))\<rparr>"

definition env_ok :: env where
  "env_ok = \<lparr>read_icon = (\<lambda>p. Inl OpenFailed),
     draw = (\<lambda>ic w h img. Pix img),
     decode_file = (\<lambda>p. Inr img1),
     resize = (\<lambda>img w h f. img),
     mkdir_ok = (\<lambda>p. True), create_ok = (\<lambda>p. True), webp_options_ok = (\<lambda>q. True),
     encode_ok = (\<lambda>p enc. True), stat_ok = (\<lambda>p. True),
     unicode_lower = (\<lambda>s. if s = dotted_linear then ''linear'' else s),
     nan_outcome = (\<lambda>ic. Inl Panicked)\<rparr>"


text \<open>
  One pixel of half-transparent red, with the channel values that
  \<^verbatim>\<open>color.NRGBA{200, 0, 0, 128}.RGBA()\<close> returns; two pixels, the left one with an alpha
  of 1 in 65535 and the right one opaque white; and a red bar of three pixels inside a
  transparent field of five by three.
\<close>

definition img_half :: image where
  "img_half = \<lparr>Bounds = Rect_of 0 0 1 1, At = (\<lambda>x y. (0x64C8, 0, 0, 0x8080))\<rparr>"

definition img_faint :: image where
  "img_faint = \<lparr>Bounds = Rect_of 0 0 2 1,
     At = (\<lambda>x y. if x = 0 then (0, 0, 0, 1) else (0xFFFF, 0xFFFF, 0xFFFF, 0xFFFF))\<rparr>"

definition img_bar :: image where
  "img_bar = \<lparr>Bounds = Rect_of 0 0 5 3,
     At = (\<lambda>x y. if y = 1 \<and> 1 \<le> x \<and> x \<le> 3 then (0xFFFF, 0, 0, 0xFFFF) else (0, 0, 0, 0))\<rparr>"

text \<open>An opaque black pixel in a transparent field of three by two, all of 8-bit colours.\<close>

definition img_pad :: image where
  "img_pad = \<lparr>Bounds = Rect_of 0 0 3 2,
     At = (\<lambda>x y. if x = 1 \<and> y = 1 then RGBA_of \<lparr>R = 0, G = 0, B = 0, A = 0xFF\<rparr>
                  else RGBA_of \<lparr>R = 0, G = 0, B = 0, A = 0\<rparr>)\<rparr>"

text \<open>
  An icon with a view box of two by two, and a world in which every SVG path parses to
  it and drawing paints the canvas pixel \<open>(2,0)\<close> opaque red.
\<close>

definition icon2 :: icon where
  "icon2 = \<lparr>ViewBox_W = 2, ViewBox_H = 2, SVGPaths = []\<rparr>"

definition env_svg :: env where
  "env_svg = env_ok\<lparr>read_icon := (\<lambda>p. Inr icon2),
     draw := (\<lambda>ic w h img u v.
       if u = 2 \<and> v = 0 then \<lparr>R = 0xFF, G = 0, B = 0, A = 0xFF\<rparr> else Pix img u v)\<rparr>"

section \<open>The invariant of the scan\<close>

text \<open>
  The invariant of the scanning loops over the set \<open>V\<close> of positions visited so far:
  the flag tells whether a content pixel was seen, the four bounds enclose every content
  pixel seen and each is attained by one, and before the first content pixel the state is
  the initial one.
\<close>

definition content_at :: "image \<Rightarrow> (int \<times> int) set \<Rightarrow> int \<Rightarrow> int \<Rightarrow> bool" where
  "content_at img V x y \<longleftrightarrow> (x, y) \<in> V \<and> is_content (At img x y)"

definition scan_inv :: "image \<Rightarrow> (int \<times> int) set \<Rightarrow> scan_state \<Rightarrow> bool" where
  "scan_inv img V s \<longleftrightarrow>
     (foundContent s \<longleftrightarrow> (\<exists>x y. content_at img V x y)) \<and>
     (\<forall>x y. content_at img V x y \<longrightarrow>
        minX s \<le> x \<and> x \<le> maxX s \<and> minY s \<le> y \<and> y \<le> maxY s) \<and>
     (foundContent s \<longrightarrow>
        (\<exists>y. content_at img V (minX s) y) \<and>
        (\<exists>y. content_at img V (maxX s) y) \<and>
        (\<exists>x. content_at img V x (minY s)) \<and>
        (\<exists>x. content_at img V x (maxY s))) \<and>
     (\<not> foundContent s \<longrightarrow> s = scan_init img)"

section \<open>Properties of the scan\<close>

lemma scan_inv_init: "scan_inv img {} (scan_init img)"
  by (simp add: scan_inv_def scan_init_def content_at_def)

lemma content_at_insert:
  "content_at img (insert (x, y) V) u v \<longleftrightarrow>
     content_at img V u v \<or> (u = x \<and> v = y \<and> is_content (At img x y))"
  by (auto simp: content_at_def)

lemma scan_inv_visit_skip:
  assumes "scan_inv img V s" and "\<not> is_content (At img x y)"
  shows "scan_inv img (insert (x, y) V) (visit img x y s)"
proof -
  have "content_at img (insert (x, y) V) = content_at img V"
    using assms(2) by (auto simp: content_at_insert fun_eq_iff)
  with assms show ?thesis by (simp add: scan_inv_def visit_def)
qed

lemma scan_inv_visit_first:
  assumes inv: "scan_inv img V s" and c: "is_content (At img x y)"
    and b: "In x y (Bounds img)" and nf: "\<not> foundContent s"
  shows "scan_inv img (insert (x, y) V) (visit img x y s)"
proof -
  have s: "s = scan_init img" and none: "\<And>u v. \<not> content_at img V u v"
    using inv nf by (simp_all add: scan_inv_def)
  have flds: "minX (visit img x y s) = x" "maxX (visit img x y s) = x"
    "minY (visit img x y s) = y" "maxY (visit img x y s) = y"
    "foundContent (visit img x y s)"
    using c b by (simp_all add: visit_def s scan_init_def In_def)
  have ca: "content_at img (insert (x, y) V) u v \<longleftrightarrow> u = x \<and> v = y" for u v
    using c none by (auto simp: content_at_insert)
  show ?thesis
    using flds by (simp add: scan_inv_def ca)
qed

lemma scan_inv_visit_more:
  assumes inv: "scan_inv img V s" and c: "is_content (At img x y)"
    and f: "foundContent s"
  shows "scan_inv img (insert (x, y) V) (visit img x y s)"
proof -
  let ?s = "visit img x y s"
  have flds: "minX ?s = min x (minX s)" "maxX ?s = max x (maxX s)"
    "minY ?s = min y (minY s)" "maxY ?s = max y (maxY s)" "foundContent ?s"
    using c by (simp_all add: visit_def min_def max_def)
  have old: "content_at img V u v \<Longrightarrow>
      minX s \<le> u \<and> u \<le> maxX s \<and> minY s \<le> v \<and> v \<le> maxY s" for u v
    using inv by (simp add: scan_inv_def)
  from inv f obtain y1 y2 x1 x2 where w:
    "content_at img V (minX s) y1" "content_at img V (maxX s) y2"
    "content_at img V x1 (minY s)" "content_at img V x2 (maxY s)"
    unfolding scan_inv_def by blast
  have a2: "\<forall>u v. content_at img (insert (x, y) V) u v \<longrightarrow>
      minX ?s \<le> u \<and> u \<le> maxX ?s \<and> minY ?s \<le> v \<and> v \<le> maxY ?s"
    unfolding flds content_at_insert using old by fastforce
  have b1: "\<exists>v. content_at img (insert (x, y) V) (minX ?s) v"
    unfolding flds content_at_insert using w(1) c by (cases "x \<le> minX s") (auto simp: min_def)
  have b2: "\<exists>v. content_at img (insert (x, y) V) (maxX ?s) v"
    unfolding flds content_at_insert using w(2) c by (cases "x \<le> maxX s") (auto simp: max_def)
  have b3: "\<exists>u. content_at img (insert (x, y) V) u (minY ?s)"
    unfolding flds content_at_insert using w(3) c by (cases "y \<le> minY s") (auto simp: min_def)
  have b4: "\<exists>u. content_at img (insert (x, y) V) u (maxY ?s)"
    unfolding flds content_at_insert using w(4) c by (cases "y \<le> maxY s") (auto simp: max_def)
  have a1: "\<exists>u v. content_at img (insert (x, y) V) u v" using b1 by blast
  show ?thesis
    unfolding scan_inv_def using a1 a2 b1 b2 b3 b4 flds(5) by blast
qed

lemma scan_inv_visit:
  "scan_inv img V s \<Longrightarrow> In x y (Bounds img) \<Longrightarrow> scan_inv img (insert (x, y) V) (visit img x y s)"
  using scan_inv_visit_skip scan_inv_visit_first scan_inv_visit_more by blast

lemma scan_inv_row:
  "scan_inv img V s \<Longrightarrow> MinX (Bounds img) \<le> x \<Longrightarrow> MinY (Bounds img) \<le> y \<Longrightarrow> y < MaxY (Bounds img) \<Longrightarrow>
   scan_inv img (V \<union> {(x', y) |x'. x \<le> x' \<and> x' < MaxX (Bounds img)}) (scan_row img y x s)"
proof (induction img y x s arbitrary: V rule: scan_row.induct)
  case (1 img y x s)
  show ?case
  proof (cases "x < MaxX (Bounds img)")
    case True
    have eq: "V \<union> {(x', y) |x'. x \<le> x' \<and> x' < MaxX (Bounds img)} =
          insert (x, y) V \<union> {(x', y) |x'. x + 1 \<le> x' \<and> x' < MaxX (Bounds img)}"
      using True by auto
    have "In x y (Bounds img)" using True "1.prems" by (simp add: In_def)
    have step: "scan_row img y x s = scan_row img y (x + 1) (visit img x y s)"
      using True by (simp add: scan_row.simps [of img y x s])
    have "In x y (Bounds img)" using True "1.prems" by (simp add: In_def)
    from "1.IH" [OF True scan_inv_visit [OF "1.prems"(1) this]] "1.prems" True show ?thesis
      unfolding eq step by simp
  next
    case False
    then have eq: "V \<union> {(x', y) |x'. x \<le> x' \<and> x' < MaxX (Bounds img)} = V" by auto
    have step: "scan_row img y x s = s"
      using False by (simp add: scan_row.simps [of img y x s])
    show ?thesis unfolding eq step by (rule "1.prems"(1))
  qed
qed

lemma scan_inv_rows:
  "scan_inv img V s \<Longrightarrow> MinY (Bounds img) \<le> y \<Longrightarrow>
   scan_inv img (V \<union> {(x', y') |x' y'. MinX (Bounds img) \<le> x' \<and> x' < MaxX (Bounds img)
         \<and> y \<le> y' \<and> y' < MaxY (Bounds img)}) (scan_rows img y s)"
proof (induction img y s arbitrary: V rule: scan_rows.induct)
  case (1 img y s)
  let ?b = "Bounds img"
  show ?case
  proof (cases "y < MaxY ?b")
    case True
    let ?V1 = "V \<union> {(x', y) |x'. MinX ?b \<le> x' \<and> x' < MaxX ?b}"
    have eq: "V \<union> {(x', y') |x' y'. MinX ?b \<le> x' \<and> x' < MaxX ?b \<and> y \<le> y' \<and> y' < MaxY ?b} =
          ?V1 \<union> {(x', y') |x' y'. MinX ?b \<le> x' \<and> x' < MaxX ?b \<and> y + 1 \<le> y' \<and> y' < MaxY ?b}"
      using True by (auto simp: order_less_le)
    have r: "scan_inv img ?V1 (scan_row img y (MinX ?b) s)"
      using scan_inv_row [OF "1.prems"(1) order_refl "1.prems"(2) True] .
    have step: "scan_rows img y s = scan_rows img (y + 1) (scan_row img y (MinX ?b) s)"
      using True by (simp add: scan_rows.simps [of img y s])
    from "1.IH" [OF True r] "1.prems" True show ?thesis
      unfolding eq step by simp
  next
    case False
    then have eq: "V \<union> {(x', y') |x' y'. MinX ?b \<le> x' \<and> x' < MaxX ?b \<and> y \<le> y' \<and> y' < MaxY ?b} = V" by auto
    have step: "scan_rows img y s = s"
      using False by (simp add: scan_rows.simps [of img y s])
    show ?thesis unfolding eq step by (rule "1.prems"(1))
  qed
qed

lemma scan_inv_find_bounds:
  "scan_inv img {(x, y). In x y (Bounds img)} (find_bounds img)"
proof -
  have "{(x, y). In x y (Bounds img)} = {} \<union> {(x', y') |x' y'. MinX (Bounds img) \<le> x' \<and> x' < MaxX (Bounds img)
         \<and> MinY (Bounds img) \<le> y' \<and> y' < MaxY (Bounds img)}"
    by (auto simp: In_def)
  then show ?thesis
    unfolding find_bounds_def using scan_inv_rows [OF scan_inv_init order_refl, of img] by simp
qed

lemma find_bounds_found:
  "foundContent (find_bounds img) \<longleftrightarrow> (\<exists>x y. In x y (Bounds img) \<and> is_content (At img x y))"
  using scan_inv_find_bounds [of img] by (simp add: scan_inv_def content_at_def)

lemma is_content_zero: "\<not> is_content c \<longleftrightarrow> c = (0, 0, 0, 0)"
  by (cases c) (auto simp: is_content_def word_gt_0)

subsection \<open>The copy\<close>

text \<open>Narrowing the widened value of a \<^verbatim>\<open>color.RGBA\<close> returns its bytes.\<close>

lemma narrow_widen: "ucast (drop_bit 8 (widen v)) = v"
  by (rule bit_word_eqI) (auto simp: widen_def bit_simps dest: bit_imp_le_length)

lemma rgbaModel_RGBA_of: "rgbaModel (RGBA_of c) = c"
  by (simp add: rgbaModel_def RGBA_of_def narrow_widen)

text \<open>
  The copying loops write, at each position of the target rows and columns that lies in
  the rectangle of the buffer, the converted source pixel, and leave the rest as it was.
\<close>

lemma copy_row_spec:
  "Rect (copy_row img s y x dst) = Rect dst \<and>
   Pix (copy_row img s y x dst) = (\<lambda>u v.
     if In u v (Rect dst) \<and> v = y - minY s \<and> x - minX s \<le> u \<and> u \<le> maxX s - minX s
     then rgbaModel (At img (u + minX s) y) else Pix dst u v)"
proof (induction img s y x dst rule: copy_row.induct)
  case (1 img s y x dst)
  show ?case
  proof (cases "x \<le> maxX s")
    case True
    let ?d = "Set_px dst (x - minX s) (y - minY s) (At img x y)"
    have step: "copy_row img s y x dst = copy_row img s y (x + 1) ?d"
      using True by (simp add: copy_row.simps [of img s y x dst])
    have r: "Rect ?d = Rect dst" by (simp add: Set_px_def)
    have p: "Pix ?d = (\<lambda>u v. if In u v (Rect dst) \<and> u = x - minX s \<and> v = y - minY s
                then rgbaModel (At img x y) else Pix dst u v)"
      by (auto simp: Set_px_def fun_eq_iff)
    have k: "x - minX s \<le> u \<longleftrightarrow> u = x - minX s \<or> x + 1 - minX s \<le> u" for u
      by linarith
    from "1.IH" [OF True] show ?thesis
      unfolding step r p using True by (auto simp: fun_eq_iff k)
  next
    case False
    then have step: "copy_row img s y x dst = dst"
      by (simp add: copy_row.simps [of img s y x dst])
    show ?thesis unfolding step using False by (auto simp: fun_eq_iff)
  qed
qed

lemma copy_rows_spec:
  "Rect (copy_rows img s y dst) = Rect dst \<and>
   Pix (copy_rows img s y dst) = (\<lambda>u v.
     if In u v (Rect dst) \<and> y - minY s \<le> v \<and> v \<le> maxY s - minY s \<and>
        0 \<le> u \<and> u \<le> maxX s - minX s
     then rgbaModel (At img (u + minX s) (v + minY s)) else Pix dst u v)"
proof (induction img s y dst rule: copy_rows.induct)
  case (1 img s y dst)
  show ?case
  proof (cases "y \<le> maxY s")
    case True
    let ?d = "copy_row img s y (minX s) dst"
    have step: "copy_rows img s y dst = copy_rows img s (y + 1) ?d"
      using True by (simp add: copy_rows.simps [of img s y dst])
    have r: "Rect ?d = Rect dst" by (simp add: copy_row_spec)
    have p: "Pix ?d = (\<lambda>u v. if In u v (Rect dst) \<and> v = y - minY s \<and> 0 \<le> u \<and> u \<le> maxX s - minX s
                then rgbaModel (At img (u + minX s) y) else Pix dst u v)"
      by (simp add: copy_row_spec)
    have k: "y - minY s \<le> v \<longleftrightarrow> v = y - minY s \<or> y + 1 - minY s \<le> v" for v
      by linarith
    from "1.IH" [OF True] show ?thesis
      unfolding step r p using True by (auto simp: fun_eq_iff k)
  next
    case False
    then have step: "copy_rows img s y dst = dst"
      by (simp add: copy_rows.simps [of img s y dst])
    show ?thesis unfolding step using False by (auto simp: fun_eq_iff)
  qed
qed

lemma find_bounds_facts:
  assumes "foundContent (find_bounds img)"
  shows "\<exists>y. In (minX (find_bounds img)) y (Bounds img) \<and> is_content (At img (minX (find_bounds img)) y)"
    and "\<exists>y. In (maxX (find_bounds img)) y (Bounds img) \<and> is_content (At img (maxX (find_bounds img)) y)"
    and "\<exists>x. In x (minY (find_bounds img)) (Bounds img) \<and> is_content (At img x (minY (find_bounds img)))"
    and "\<exists>x. In x (maxY (find_bounds img)) (Bounds img) \<and> is_content (At img x (maxY (find_bounds img)))"
  using scan_inv_find_bounds [of img] assms by (simp_all add: scan_inv_def content_at_def)

lemma find_bounds_encloses:
  assumes "In x y (Bounds img)" and "is_content (At img x y)"
  shows "minX (find_bounds img) \<le> x \<and> x \<le> maxX (find_bounds img) \<and>
         minY (find_bounds img) \<le> y \<and> y \<le> maxY (find_bounds img)"
  using scan_inv_find_bounds [of img] assms by (simp add: scan_inv_def content_at_def)

lemma find_bounds_ordered:
  assumes "foundContent (find_bounds img)"
  shows "minX (find_bounds img) \<le> maxX (find_bounds img) \<and>
         minY (find_bounds img) \<le> maxY (find_bounds img)"
proof -
  from find_bounds_facts(1) [OF assms] obtain y where
    "In (minX (find_bounds img)) y (Bounds img)" "is_content (At img (minX (find_bounds img)) y)"
    by blast
  from find_bounds_encloses [OF this] show ?thesis by linarith
qed

lemma crop_found:
  assumes "foundContent (find_bounds img)"
  shows "cropTransparentAreas img =
     \<lparr>Rect = \<lparr>MinX = 0, MinY = 0, MaxX = maxX (find_bounds img) - minX (find_bounds img) + 1,
               MaxY = maxY (find_bounds img) - minY (find_bounds img) + 1\<rparr>,
      Pix = (\<lambda>u v.
        if 0 \<le> u \<and> u \<le> maxX (find_bounds img) - minX (find_bounds img) \<and>
           0 \<le> v \<and> v \<le> maxY (find_bounds img) - minY (find_bounds img)
        then rgbaModel (At img (u + minX (find_bounds img)) (v + minY (find_bounds img)))
        else transparent)\<rparr>"
proof -
  let ?s = "find_bounds img"
  let ?w = "maxX ?s - minX ?s + 1" and ?h = "maxY ?s - minY ?s + 1"
  from find_bounds_ordered [OF assms] have o: "minX ?s \<le> maxX ?s" "minY ?s \<le> maxY ?s" by simp_all
  then have r: "Rect_of 0 0 ?w ?h = \<lparr>MinX = 0, MinY = 0, MaxX = ?w, MaxY = ?h\<rparr>"
    by (simp add: Rect_of_def)
  have c: "cropTransparentAreas img = copy_rows img ?s (minY ?s) (NewRGBA (Rect_of 0 0 ?w ?h))"
    using assms by (simp add: cropTransparentAreas_def Let_def)
  have "Rect (cropTransparentAreas img) = \<lparr>MinX = 0, MinY = 0, MaxX = ?w, MaxY = ?h\<rparr>"
    unfolding c by (simp add: copy_rows_spec NewRGBA_def r)
  moreover have "Pix (cropTransparentAreas img) = (\<lambda>u v.
        if 0 \<le> u \<and> u \<le> maxX ?s - minX ?s \<and> 0 \<le> v \<and> v \<le> maxY ?s - minY ?s
        then rgbaModel (At img (u + minX ?s) (v + minY ?s)) else transparent)"
    unfolding c by (auto simp: copy_rows_spec NewRGBA_def r In_def fun_eq_iff)
  ultimately show ?thesis by simp
qed

subsection \<open>The content test\<close>

text \<open>
  Claim C2. In the bounds detector a pixel counts as content exactly when its alpha
  channel or one of its red, green and blue channels is greater than zero: this is the
  test itself, it is what raises the flag in the loop body, and the scan of a whole image
  finds content exactly when some pixel inside the bounds passes it. An opaque black
  pixel counts (by its alpha), and a pixel with alpha zero counts exactly when one of its
  colour channels is not zero.
\<close>

theorem content_test:
  "(is_content (r, g, b, a) \<longleftrightarrow> 0 < a \<or> 0 < r \<or> 0 < g \<or> 0 < b) \<and>
   (foundContent (visit img x y s) \<longleftrightarrow>
      foundContent s \<or> (case At img x y of (r, g, b, a) \<Rightarrow> 0 < a \<or> 0 < r \<or> 0 < g \<or> 0 < b)) \<and>
   (foundContent (find_bounds img) \<longleftrightarrow>
      (\<exists>x y. In x y (Bounds img) \<and>
         (case At img x y of (r, g, b, a) \<Rightarrow> 0 < a \<or> 0 < r \<or> 0 < g \<or> 0 < b))) \<and>
   is_content (0, 0, 0, 0xFFFF) \<and>
   (is_content (r, g, b, 0) \<longleftrightarrow> 0 < r \<or> 0 < g \<or> 0 < b)"
proof -
  have v: "foundContent (visit img x y s) \<longleftrightarrow> foundContent s \<or> is_content (At img x y)"
    by (simp add: visit_def)
  show ?thesis
    unfolding v find_bounds_found by (simp add: is_content_def)
qed

subsection \<open>An image without content\<close>

text \<open>
  Claim C5. When every pixel inside the bounds has alpha and all colour channels zero,
  whatever the size of the image, the crop is the freshly allocated image of bounds
  \<open>(0,0)-(1,1)\<close>: one pixel wide, one pixel high, and that pixel is transparent.
  The crop has no failing branch: \<open>cropTransparentAreas\<close> is a total function whose
  loops are proved to terminate.
\<close>

theorem crop_no_content:
  assumes "\<forall>x y. In x y (Bounds img) \<longrightarrow> At img x y = (0, 0, 0, 0)"
  shows "cropTransparentAreas img = NewRGBA (Rect_of 0 0 1 1) \<and>
         Dx (Rect (cropTransparentAreas img)) = 1 \<and>
         Dy (Rect (cropTransparentAreas img)) = 1 \<and>
         RGBAAt (cropTransparentAreas img) 0 0 = \<lparr>R = 0, G = 0, B = 0, A = 0\<rparr>"
proof -
  have "\<not> foundContent (find_bounds img)"
    using assms by (auto simp: find_bounds_found is_content_def)
  then have "cropTransparentAreas img = NewRGBA (Rect_of 0 0 1 1)"
    by (simp add: cropTransparentAreas_def)
  then show ?thesis
    by (simp add: NewRGBA_def Rect_of_def Dx_def Dy_def RGBAAt_def transparent_def)
qed

theorem crop_no_content_witness:
  "cropTransparentAreas \<lparr>Bounds = Rect_of 0 0 3 2, At = (\<lambda>x y. (0, 0, 0, 0))\<rparr>
     = NewRGBA (Rect_of 0 0 1 1)"
  using crop_no_content [of "\<lparr>Bounds = Rect_of 0 0 3 2, At = (\<lambda>x y. (0, 0, 0, 0))\<rparr>"]
  by simp

subsection \<open>An image with content\<close>

text \<open>
  Claim C1, as the specification states it, fails: the crop writes into an 8-bit RGBA
  buffer, so a pixel is narrowed to the high byte of each channel. The single pixel of
  \<open>img_half\<close> is content and is the whole bounding rectangle, and pixel \<open>(0,0)\<close> of
  the crop reads back with red \<open>0x6464\<close>, not the \<open>0x64C8\<close> of the input.
\<close>

theorem crop_verbatim_counterexample:
  "is_content (At img_half 0 0) \<and>
   At img_half (minX (find_bounds img_half)) (minY (find_bounds img_half)) = (0x64C8, 0, 0, 0x8080) \<and>
   At (as_image (cropTransparentAreas img_half)) 0 0 = (0x6464, 0, 0, 0x8080)"
  by code_simp

text \<open>
  Claim C1, amended. For an image with a content pixel inside its bounds, the bounds
  \<open>s\<close> found by the scan are the bounding rectangle of the content (they enclose every
  content pixel and each of the four is attained by one), the crop is a new buffer with
  rectangle \<open>(0,0)-(maxX-minX+1, maxY-minY+1)\<close>, its pixel \<open>(0,0)\<close> is the input
  pixel \<open>(minX,minY)\<close> converted to \<^verbatim>\<open>color.RGBA\<close>, and so is every pixel of the
  rectangle, content or not, at its offset. A pixel whose channels are those of a
  \<^verbatim>\<open>color.RGBA\<close> reads back unchanged.
\<close>

theorem crop_content:
  assumes "In x0 y0 (Bounds img)" and "is_content (At img x0 y0)"
    and "s = find_bounds img" and "out = cropTransparentAreas img"
  shows "(\<forall>x y. In x y (Bounds img) \<and> is_content (At img x y) \<longrightarrow>
            minX s \<le> x \<and> x \<le> maxX s \<and> minY s \<le> y \<and> y \<le> maxY s) \<and>
         (\<exists>y. In (minX s) y (Bounds img) \<and> is_content (At img (minX s) y)) \<and>
         (\<exists>y. In (maxX s) y (Bounds img) \<and> is_content (At img (maxX s) y)) \<and>
         (\<exists>x. In x (minY s) (Bounds img) \<and> is_content (At img x (minY s))) \<and>
         (\<exists>x. In x (maxY s) (Bounds img) \<and> is_content (At img x (maxY s))) \<and>
         Rect out = \<lparr>MinX = 0, MinY = 0, MaxX = maxX s - minX s + 1, MaxY = maxY s - minY s + 1\<rparr> \<and>
         Dx (Rect out) = maxX s - minX s + 1 \<and> Dy (Rect out) = maxY s - minY s + 1 \<and>
         RGBAAt out 0 0 = rgbaModel (At img (minX s) (minY s)) \<and>
         (\<forall>x y. minX s \<le> x \<and> x \<le> maxX s \<and> minY s \<le> y \<and> y \<le> maxY s \<longrightarrow>
            RGBAAt out (x - minX s) (y - minY s) = rgbaModel (At img x y)) \<and>
         (\<forall>x y c. minX s \<le> x \<and> x \<le> maxX s \<and> minY s \<le> y \<and> y \<le> maxY s \<and>
            At img x y = RGBA_of c \<longrightarrow>
            At (as_image out) (x - minX s) (y - minY s) = At img x y)"
proof -
  have f: "foundContent (find_bounds img)"
    using assms(1,2) find_bounds_found by blast
  note o = find_bounds_ordered [OF f]
  have out: "out = \<lparr>Rect = \<lparr>MinX = 0, MinY = 0, MaxX = maxX s - minX s + 1,
               MaxY = maxY s - minY s + 1\<rparr>,
      Pix = (\<lambda>u v.
        if 0 \<le> u \<and> u \<le> maxX s - minX s \<and> 0 \<le> v \<and> v \<le> maxY s - minY s
        then rgbaModel (At img (u + minX s) (v + minY s)) else transparent)\<rparr>"
    unfolding assms(3,4) by (rule crop_found [OF f])
  have px: "RGBAAt out (x - minX s) (y - minY s) = rgbaModel (At img x y)"
    if "minX s \<le> x \<and> x \<le> maxX s \<and> minY s \<le> y \<and> y \<le> maxY s" for x y
    using that by (simp add: out RGBAAt_def In_def)
  have px0: "RGBAAt out 0 0 = rgbaModel (At img (minX s) (minY s))"
    using px [of "minX s" "minY s"] o by (simp add: assms(3))
  have px8: "At (as_image out) (x - minX s) (y - minY s) = At img x y"
    if "minX s \<le> x \<and> x \<le> maxX s \<and> minY s \<le> y \<and> y \<le> maxY s \<and> At img x y = RGBA_of c"
    for x y c
    using px [of x y] that by (simp add: as_image_def rgbaModel_RGBA_of)
  have r: "Rect out = \<lparr>MinX = 0, MinY = 0, MaxX = maxX s - minX s + 1, MaxY = maxY s - minY s + 1\<rparr>"
    by (simp add: out)
  have d: "Dx (Rect out) = maxX s - minX s + 1 \<and> Dy (Rect out) = maxY s - minY s + 1"
    by (simp add: r Dx_def Dy_def)
  show ?thesis
    using find_bounds_encloses [of _ _ img] find_bounds_facts [OF f] r d px0 px px8
    unfolding assms(3) [symmetric] by blast
qed

theorem crop_content_witness:
  "Rect (cropTransparentAreas img_bar) = \<lparr>MinX = 0, MinY = 0, MaxX = 3, MaxY = 1\<rparr> \<and>
   RGBAAt (cropTransparentAreas img_bar) 2 0 = \<lparr>R = 0xFF, G = 0, B = 0, A = 0xFF\<rparr> \<and>
   At (as_image (cropTransparentAreas img_bar)) 0 0 = At img_bar 1 1"
proof -
  have s: "minX (find_bounds img_bar) = 1" "maxX (find_bounds img_bar) = 3"
    "minY (find_bounds img_bar) = 1" "maxY (find_bounds img_bar) = 1"
    by code_simp+
  have a: "In 2 1 (Bounds img_bar)" "is_content (At img_bar 2 1)"
    by code_simp+
  have c: "At img_bar 1 1 = RGBA_of \<lparr>R = 0xFF, G = 0, B = 0, A = 0xFF\<rparr>"
    "rgbaModel (At img_bar 3 1) = \<lparr>R = 0xFF, G = 0, B = 0, A = 0xFF\<rparr>"
    by code_simp+
  note t = crop_content [OF a refl refl, unfolded s]
  from t have "Rect (cropTransparentAreas img_bar) = \<lparr>MinX = 0, MinY = 0, MaxX = 3, MaxY = 1\<rparr>"
    by simp
  moreover have "RGBAAt (cropTransparentAreas img_bar) (3 - 1) (1 - 1) = rgbaModel (At img_bar 3 1)"
  proof -
    from t have "\<forall>x y. 1 \<le> x \<and> x \<le> 3 \<and> 1 \<le> y \<and> y \<le> 1 \<longrightarrow>
        RGBAAt (cropTransparentAreas img_bar) (x - 1) (y - 1) = rgbaModel (At img_bar x y)"
      by (elim conjE)
    from this [rule_format, of 3 1] show ?thesis by simp
  qed
  moreover have "At (as_image (cropTransparentAreas img_bar)) (1 - 1) (1 - 1) = At img_bar 1 1"
  proof -
    from t have "\<forall>x y c. 1 \<le> x \<and> x \<le> 3 \<and> 1 \<le> y \<and> y \<le> 1 \<and> At img_bar x y = RGBA_of c \<longrightarrow>
        At (as_image (cropTransparentAreas img_bar)) (x - 1) (y - 1) = At img_bar x y"
      by (elim conjE)
    from this [rule_format, of 1 1] c(1) show ?thesis by simp
  qed
  ultimately show ?thesis by (simp add: c(2))
qed

subsection \<open>Cropping twice\<close>

text \<open>
  Outside its rectangle the buffer returned by the crop is transparent, and an RGBA
  buffer at the origin with a content pixel on each of its four borders is returned by
  the crop with the same rectangle and the same pixels.
\<close>

lemma crop_Pix_outside:
  "\<not> In u v (Rect (cropTransparentAreas img)) \<Longrightarrow> Pix (cropTransparentAreas img) u v = transparent"
proof (cases "foundContent (find_bounds img)")
  case True
  assume "\<not> In u v (Rect (cropTransparentAreas img))"
  then show ?thesis
    by (subst crop_found [OF True], subst (asm) crop_found [OF True]) (auto simp: In_def)
next
  case False
  then show ?thesis by (simp add: cropTransparentAreas_def NewRGBA_def)
qed

lemma crop_of_cropped:
  assumes o: "MinX (Rect p) = 0" "MinY (Rect p) = 0"
    and l: "\<exists>y. In 0 y (Rect p) \<and> is_content (At (as_image p) 0 y)"
    and r: "\<exists>y. In (MaxX (Rect p) - 1) y (Rect p) \<and> is_content (At (as_image p) (MaxX (Rect p) - 1) y)"
    and t: "\<exists>x. In x 0 (Rect p) \<and> is_content (At (as_image p) x 0)"
    and b: "\<exists>x. In x (MaxY (Rect p) - 1) (Rect p) \<and> is_content (At (as_image p) x (MaxY (Rect p) - 1))"
  shows "Rect (cropTransparentAreas (as_image p)) = Rect p \<and>
         (\<forall>x y. RGBAAt (cropTransparentAreas (as_image p)) x y = RGBAAt p x y)"
proof -
  let ?img = "as_image p"
  let ?s = "find_bounds ?img"
  have bd: "Bounds ?img = Rect p" by (simp add: as_image_def)
  have f: "foundContent ?s" using l by (auto simp: find_bounds_found bd)
  from find_bounds_facts [OF f] have
    lo: "0 \<le> minX ?s" "0 \<le> minY ?s" and hi: "maxX ?s < MaxX (Rect p)" "maxY ?s < MaxY (Rect p)"
    by (auto simp: bd In_def o)
  from l obtain y where "In 0 y (Bounds ?img)" "is_content (At ?img 0 y)" by (auto simp: bd)
  from find_bounds_encloses [OF this] have "minX ?s \<le> 0" by simp
  moreover
  from t obtain x where "In x 0 (Bounds ?img)" "is_content (At ?img x 0)" by (auto simp: bd)
  from find_bounds_encloses [OF this] have "minY ?s \<le> 0" by simp
  moreover
  from r obtain y where "In (MaxX (Rect p) - 1) y (Bounds ?img)"
    "is_content (At ?img (MaxX (Rect p) - 1) y)" by (auto simp: bd)
  from find_bounds_encloses [OF this] have "MaxX (Rect p) - 1 \<le> maxX ?s" by simp
  moreover
  from b obtain x where "In x (MaxY (Rect p) - 1) (Bounds ?img)"
    "is_content (At ?img x (MaxY (Rect p) - 1))" by (auto simp: bd)
  from find_bounds_encloses [OF this] have "MaxY (Rect p) - 1 \<le> maxY ?s" by simp
  ultimately have s: "minX ?s = 0" "minY ?s = 0" "maxX ?s = MaxX (Rect p) - 1"
    "maxY ?s = MaxY (Rect p) - 1"
    using lo hi by simp_all
  have c: "cropTransparentAreas ?img =
     \<lparr>Rect = \<lparr>MinX = 0, MinY = 0, MaxX = MaxX (Rect p), MaxY = MaxY (Rect p)\<rparr>,
      Pix = (\<lambda>u v. if 0 \<le> u \<and> u \<le> MaxX (Rect p) - 1 \<and> 0 \<le> v \<and> v \<le> MaxY (Rect p) - 1
                then rgbaModel (At ?img u v) else transparent)\<rparr>"
    by (subst crop_found [OF f]) (auto simp: s fun_eq_iff)
  have rr: "Rect p = \<lparr>MinX = 0, MinY = 0, MaxX = MaxX (Rect p), MaxY = MaxY (Rect p)\<rparr>"
    using o by (cases "Rect p") simp
  have 1: "Rect (cropTransparentAreas ?img) = Rect p"
    unfolding c using rr by simp
  have 2: "RGBAAt (cropTransparentAreas ?img) x y = RGBAAt p x y" for x y
    unfolding RGBAAt_def 1 unfolding c
    by (auto simp: In_def o as_image_def rgbaModel_RGBA_of RGBAAt_def)
  show ?thesis using 1 2 by blast
qed

lemma RGBA_of_transparent: "RGBA_of transparent = (0, 0, 0, 0)"
  by (simp add: RGBA_of_def transparent_def widen_def)

text \<open>
  Claim C7, as the specification states it, fails. The left pixel of \<open>img_faint\<close> is
  content (its alpha is 1), so the first crop keeps both pixels; narrowed to 8 bits it is
  fully transparent, so the second crop keeps only the right one.
\<close>

theorem crop_twice_counterexample:
  "Rect (cropTransparentAreas img_faint) = \<lparr>MinX = 0, MinY = 0, MaxX = 2, MaxY = 1\<rparr> \<and>
   Rect (cropTransparentAreas (as_image (cropTransparentAreas img_faint)))
     = \<lparr>MinX = 0, MinY = 0, MaxX = 1, MaxY = 1\<rparr>"
  by code_simp

text \<open>
  Claim C7, amended. When every content pixel of the image is still content after the
  conversion to \<^verbatim>\<open>color.RGBA\<close> (some channel is at least 256; this holds for every
  pixel with 8-bit colours, lemma \<open>content_survives_8bit\<close>), cropping the crop returns
  the crop: the same rectangle and the same pixel store.
\<close>

theorem crop_idempotent:
  assumes H: "\<forall>x y. In x y (Bounds img) \<and> is_content (At img x y) \<longrightarrow>
                is_content (RGBA_of (rgbaModel (At img x y)))"
  shows "cropTransparentAreas (as_image (cropTransparentAreas img)) = cropTransparentAreas img"
proof (cases "foundContent (find_bounds img)")
  case False
  then have c: "cropTransparentAreas img = NewRGBA (Rect_of 0 0 1 1)"
    by (simp add: cropTransparentAreas_def)
  have "\<not> foundContent (find_bounds (as_image (NewRGBA (Rect_of 0 0 1 1))))"
    by (simp add: find_bounds_found as_image_def RGBAAt_def NewRGBA_def RGBA_of_transparent
        is_content_def)
  then show ?thesis unfolding c by (simp add: cropTransparentAreas_def)
next
  case True
  let ?s = "find_bounds img"
  let ?out = "cropTransparentAreas img"
  note o = find_bounds_ordered [OF True]
  note c = crop_found [OF True]
  have R: "Rect ?out = \<lparr>MinX = 0, MinY = 0, MaxX = maxX ?s - minX ?s + 1,
              MaxY = maxY ?s - minY ?s + 1\<rparr>"
    by (subst c) simp
  have at: "At (as_image ?out) (x - minX ?s) (y - minY ?s) = RGBA_of (rgbaModel (At img x y))"
    if "minX ?s \<le> x" "x \<le> maxX ?s" "minY ?s \<le> y" "y \<le> maxY ?s" for x y
    unfolding as_image_def RGBAAt_def R using that by (subst c) (simp add: In_def)
  have keep: "In (x - minX ?s) (y - minY ?s) (Rect ?out) \<and>
              is_content (At (as_image ?out) (x - minX ?s) (y - minY ?s))"
    if "In x y (Bounds img)" "is_content (At img x y)" for x y
  proof -
    from find_bounds_encloses [OF that] have e:
      "minX ?s \<le> x" "x \<le> maxX ?s" "minY ?s \<le> y" "y \<le> maxY ?s" by simp_all
    then have "In (x - minX ?s) (y - minY ?s) (Rect ?out)" by (simp add: R In_def)
    moreover have "is_content (At (as_image ?out) (x - minX ?s) (y - minY ?s))"
      unfolding at [OF e] using H that by blast
    ultimately show ?thesis by simp
  qed
  from find_bounds_facts(1) [OF True] obtain y1 where
    "In (minX ?s) y1 (Bounds img)" "is_content (At img (minX ?s) y1)" by blast
  from keep [OF this] have l: "\<exists>y. In 0 y (Rect ?out) \<and> is_content (At (as_image ?out) 0 y)"
    by auto
  from find_bounds_facts(2) [OF True] obtain y2 where
    "In (maxX ?s) y2 (Bounds img)" "is_content (At img (maxX ?s) y2)" by blast
  from keep [OF this] have r: "\<exists>y. In (MaxX (Rect ?out) - 1) y (Rect ?out) \<and>
      is_content (At (as_image ?out) (MaxX (Rect ?out) - 1) y)"
    unfolding R by auto
  from find_bounds_facts(3) [OF True] obtain x1 where
    "In x1 (minY ?s) (Bounds img)" "is_content (At img x1 (minY ?s))" by blast
  from keep [OF this] have t: "\<exists>x. In x 0 (Rect ?out) \<and> is_content (At (as_image ?out) x 0)"
    by auto
  from find_bounds_facts(4) [OF True] obtain x2 where
    "In x2 (maxY ?s) (Bounds img)" "is_content (At img x2 (maxY ?s))" by blast
  from keep [OF this] have b: "\<exists>x. In x (MaxY (Rect ?out) - 1) (Rect ?out) \<and>
      is_content (At (as_image ?out) x (MaxY (Rect ?out) - 1))"
    unfolding R by auto
  have o0: "MinX (Rect ?out) = 0" "MinY (Rect ?out) = 0" by (simp_all add: R)
  from crop_of_cropped [OF o0 l r t b] have
    1: "Rect (cropTransparentAreas (as_image ?out)) = Rect ?out" and
    2: "\<And>x y. RGBAAt (cropTransparentAreas (as_image ?out)) x y = RGBAAt ?out x y"
    by simp_all
  have 3: "Pix (cropTransparentAreas (as_image ?out)) x y = Pix ?out x y" for x y
  proof (cases "In x y (Rect ?out)")
    case True
    with 2 [of x y] show ?thesis by (simp add: RGBAAt_def 1)
  next
    case False
    then show ?thesis
      using crop_Pix_outside [of x y img] crop_Pix_outside [of x y "as_image ?out"] 1 by simp
  qed
  show ?thesis
    by (rule image_RGBA.equality) (simp_all add: 1 3 fun_eq_iff)
qed

lemma content_survives_8bit:
  "is_content (RGBA_of c) \<Longrightarrow> is_content (RGBA_of (rgbaModel (RGBA_of c)))"
  by (simp add: rgbaModel_RGBA_of)

theorem crop_idempotent_witness:
  "cropTransparentAreas (as_image (cropTransparentAreas img_pad)) = cropTransparentAreas img_pad \<and>
   Rect (cropTransparentAreas img_pad) = \<lparr>MinX = 0, MinY = 0, MaxX = 1, MaxY = 1\<rparr>"
proof -
  have "RGBA_of (rgbaModel (At img_pad x y)) = At img_pad x y" for x y
    by (simp add: img_pad_def rgbaModel_RGBA_of)
  then have "cropTransparentAreas (as_image (cropTransparentAreas img_pad)) = cropTransparentAreas img_pad"
    using crop_idempotent [of img_pad] by simp
  moreover have "Rect (cropTransparentAreas img_pad) = \<lparr>MinX = 0, MinY = 0, MaxX = 1, MaxY = 1\<rparr>"
    by code_simp
  ultimately show ?thesis by simp
qed

section \<open>Properties of the rasterizer's scale\<close>

text \<open>
  Claim C8 says that the rasterizer clamps every requested scale to the closed range
  from 1 to 4. The two tests of the code do so for every scale that is a number: a finite
  request becomes the nearest value of the range (10 becomes 4, 0 becomes 1), plus
  infinity becomes 4, minus infinity becomes 1, and the icon is rendered at that value.
  At NaN both tests are false: the scale stays NaN, outside the range, and the rendering
  runs with it. The clamp that the code announces misses this request.
\<close>

theorem svg_scale_clamped:
  "clamp_scale NaN = NaN \<and>
   fst (loadSVGWithScale e path NaN) =
     (case read_icon e path of Inl err \<Rightarrow> Inl err | Inr ic \<Rightarrow> nan_outcome e ic) \<and>
   clamp_scale (Finite r) = Finite (max 1 (min 4 r)) \<and>
   clamp_scale PosInf = Finite 4 \<and> clamp_scale NegInf = Finite 1 \<and>
   clamp_scale (Finite 10) = Finite 4 \<and> clamp_scale (Finite 0) = Finite 1 \<and>
   fst (loadSVGWithScale e path (Finite r)) =
     (case read_icon e path of
        Inl err \<Rightarrow> Inl err
      | Inr ic \<Rightarrow> Inr (rasterize e ic (max 1 (min 4 r))))"
proof -
  have c: "clamp_scale NaN = NaN" "clamp_scale (Finite r) = Finite (max 1 (min 4 r))"
    "clamp_scale PosInf = Finite 4" "clamp_scale NegInf = Finite 1"
    "clamp_scale (Finite 10) = Finite 4" "clamp_scale (Finite 0) = Finite 1"
    by (simp_all add: clamp_scale_def Let_def max_def min_def)
  have n: "fst (loadSVGWithScale e path NaN) =
     (case read_icon e path of Inl err \<Rightarrow> Inl err | Inr ic \<Rightarrow> nan_outcome e ic)"
    by (simp add: loadSVGWithScale_def c(1) Let_def split: sum.splits prod.splits)
  have f: "fst (loadSVGWithScale e path (Finite r)) =
     (case read_icon e path of
        Inl err \<Rightarrow> Inl err
      | Inr ic \<Rightarrow> Inr (rasterize e ic (max 1 (min 4 r))))"
    by (simp add: loadSVGWithScale_def c(2) Let_def split: sum.splits prod.splits)
  show ?thesis using c n f by simp
qed

section \<open>Properties of rounding\<close>

text \<open>
  The exponent found by \<open>ilog2\<close> brackets the number, and a number that fits the
  significand is not changed by rounding.
\<close>

lemma lg_up_bounds: "1 \<le> q \<Longrightarrow> 2 ^ lg_up q \<le> q \<and> q < 2 ^ Suc (lg_up q)"
proof (induction q rule: lg_up.induct)
  case (1 q)
  show ?case
  proof (cases "q < 2")
    case True
    then show ?thesis using "1.prems" by (simp add: lg_up.simps [of q])
  next
    case False
    then have "1 \<le> q / 2" by simp
    from "1.IH" [OF False this] False show ?thesis
      by (simp add: lg_up.simps [of q])
  qed
qed

lemma lg_down_bounds: "0 < q \<Longrightarrow> q < 1 \<Longrightarrow> 1 \<le> q * 2 ^ lg_down q \<and> q * 2 ^ lg_down q < 2"
proof (induction q rule: lg_down.induct)
  case (1 q)
  show ?case
  proof (cases "2 * q < 1")
    case True
    have n: "\<not> (1 \<le> q \<or> q \<le> 0)" using "1.prems" by simp
    from "1.IH" [OF n _ True] "1.prems" n show ?thesis
      by (simp add: lg_down.simps [of q] mult.assoc mult.left_commute)
  next
    case False
    then have "lg_down (2 * q) = 0" by (simp add: lg_down.simps [of "2 * q"])
    then have "lg_down q = 1" using "1.prems" by (simp add: lg_down.simps [of q])
    then show ?thesis using False "1.prems" by simp
  qed
qed

lemma ilog2_bounds:
  assumes "0 < q" shows "2 powi (ilog2 q) \<le> q \<and> q < 2 * 2 powi (ilog2 q)"
proof (cases "1 \<le> q")
  case True
  then show ?thesis using lg_up_bounds [OF True] by (simp add: ilog2_def)
next
  case False
  with assms have q: "0 < q" "q < 1" by simp_all
  from lg_down_bounds [OF q] have b: "1 \<le> q * 2 ^ lg_down q" "q * 2 ^ lg_down q < 2" by simp_all
  show ?thesis using b False
    by (simp add: ilog2_def power_int_minus field_simps)
qed

lemma round_even_of_int: "round_even (of_int n) = n"
  by (simp add: round_even_def)

lemma ilog2_less:
  assumes "0 < q" and "q < 2 powi n" shows "ilog2 q < n"
proof (rule ccontr)
  assume "\<not> ilog2 q < n"
  then have "n \<le> ilog2 q" by simp
  then have "(2::rat) powi n \<le> 2 powi (ilog2 q)" by (simp add: power_int_increasing)
  with ilog2_bounds [OF assms(1)] assms(2) show False by simp
qed

lemma fl_round_exact:
  assumes q: "q = of_int m * 2 powi k" and m: "\<bar>m\<bar> < 2 ^ p" and k: "emin - int p + 1 \<le> k"
  shows "fl_round p emin q = q"
proof (cases "q = 0")
  case True
  then show ?thesis by (simp add: fl_round_def)
next
  case False
  define j where "j = max (ilog2 \<bar>q\<bar>) emin - int p + 1"
  have pos: "0 < \<bar>q\<bar>" using False by simp
  have "\<bar>q\<bar> = of_int \<bar>m\<bar> * 2 powi k" by (simp add: q abs_mult)
  also have "\<dots> < 2 ^ p * 2 powi k"
  proof -
    have "(of_int \<bar>m\<bar> :: rat) < of_int (2 ^ p)" using m by (simp only: of_int_less_iff)
    then show ?thesis by simp
  qed
  also have "\<dots> = 2 powi (int p + k)" by (simp add: power_int_add)
  finally have "ilog2 \<bar>q\<bar> < int p + k" using ilog2_less [OF pos] by simp
  then have jk: "j \<le> k" using k by (simp add: j_def)
  have "q / 2 powi j = of_int m * 2 powi (k - j)"
    by (simp add: q power_int_diff)
  also have "\<dots> = of_int (m * 2 ^ nat (k - j))"
    using jk by (simp add: power_int_def)
  finally have "round_even (q / 2 powi j) = m * 2 ^ nat (k - j)"
    by (simp only: round_even_of_int)
  then have "of_int (round_even (q / 2 powi j)) * 2 powi j
      = (of_int m :: rat) * (2 ^ nat (k - j) * 2 powi j)"
    by simp
  also have "(2::rat) ^ nat (k - j) * 2 powi j = 2 powi k"
  proof -
    have "(2::rat) ^ nat (k - j) = 2 powi (k - j)" using jk by (simp add: power_int_def)
    then show ?thesis by (simp add: power_int_diff)
  qed
  finally show ?thesis using False by (simp add: fl_round_def j_def Let_def q)
qed

text \<open>
  A \<^verbatim>\<open>float32\<close> between 1 and 4 is a multiple of \<open>2\<^sup>-\<^sup>2\<^sup>3\<close>, so its product with an
  integer below \<open>2\<^sup>2\<^sup>8\<close> is exact in \<^verbatim>\<open>float64\<close>.
\<close>

lemma float32_grid:
  assumes f: "float32 s = s" and lo: "1 \<le> s" and hi: "s \<le> 4"
  shows "\<exists>m. s = of_int m * 2 powi (- 23) \<and> 0 \<le> m \<and> m \<le> 2 ^ 25"
proof -
  have pos: "0 < s" using lo by simp
  define e where "e = ilog2 s"
  from ilog2_bounds [OF pos] have b: "2 powi e \<le> s" "s < 2 * 2 powi e" by (simp_all add: e_def)
  have e0: "0 \<le> e"
  proof (rule ccontr)
    assume "\<not> 0 \<le> e"
    then have "e + 1 \<le> 0" by simp
    then have "(2::rat) powi (e + 1) \<le> 2 powi 0" by (rule power_int_increasing) simp
    then have "2 * (2::rat) powi e \<le> 1" by (simp add: power_int_add)
    with b(2) lo show False by simp
  qed
  have e2: "e \<le> 2"
  proof (rule ccontr)
    assume "\<not> e \<le> 2"
    then have "3 \<le> e" by simp
    then have "(2::rat) powi 3 \<le> 2 powi e" by (rule power_int_increasing) simp
    with b(1) hi show False by simp
  qed
  define n where "n = round_even (s / 2 powi (e - 23))"
  have "s = of_int n * 2 powi (e - 23)"
    using f pos e0 by (simp add: float32_def fl_round_def Let_def e_def n_def max_def)
  also have "\<dots> = of_int n * (2 powi e * 2 powi (- 23))"
    by (simp add: power_int_diff power_int_minus field_simps)
  also have "(2::rat) powi e = of_int (2 ^ nat e)" using e0 by (simp add: power_int_def)
  finally have s: "s = of_int (n * 2 ^ nat e) * 2 powi (- 23)" by simp
  define m where "m = n * 2 ^ nat e"
  have sm: "s = of_int m * 2 powi (- 23)" using s by (simp add: m_def)
  then have "of_int m = s * 2 ^ 23" by (simp add: power_int_minus field_simps)
  then have "(0::rat) \<le> of_int m" "(of_int m :: rat) \<le> of_int (2 ^ 25)"
    using pos hi by simp_all
  then have "0 \<le> m" "m \<le> 2 ^ 25" by (simp_all only: of_int_le_iff of_int_0_le_iff)
  with sm show ?thesis by blast
qed

lemma float64_of_int:
  assumes "\<bar>x\<bar> < 2 ^ 53" shows "float64 (of_int x) = of_int x"
  unfolding float64_def by (rule fl_round_exact [where m = x and k = 0]) (use assms in simp_all)

lemma src_coord_exact:
  assumes f: "float32 s = s" and lo: "1 \<le> s" and hi: "s \<le> 4"
    and x0: "0 \<le> x" and x1: "x < 2 ^ 28"
  shows "src_coord s x = \<lfloor>of_int x * s\<rfloor>"
proof -
  from float32_grid [OF f lo hi] obtain m where
    m: "s = of_int m * 2 powi (- 23)" "0 \<le> m" "m \<le> 2 ^ 25" by blast
  have fx: "float64 (of_int x) = of_int x"
    using x0 x1 by (intro float64_of_int) simp
  have "x * m \<le> (2 ^ 28 - 1) * 2 ^ 25"
    using x0 x1 m(2,3) by (intro mult_mono) simp_all
  then have xm: "\<bar>x * m\<bar> < 2 ^ 53" using x0 m(2) by simp
  have "float64 (of_int x * s) = of_int x * s"
    unfolding float64_def
    by (rule fl_round_exact [where m = "x * m" and k = "- 23"]) (use xm m(1) in simp_all)
  moreover have "0 \<le> of_int x * s" using x0 lo by simp
  ultimately show ?thesis by (simp add: src_coord_def fx go_int_def)
qed

section \<open>Properties of the downsampling\<close>

lemma sample_px_spec:
  "Rect (sample_px scale rw rh img x y fin) = Rect fin \<and>
   Pix (sample_px scale rw rh img x y fin) = (\<lambda>u v.
     if In u v (Rect fin) \<and> u = x \<and> v = y \<and> src_coord scale u < rw \<and> src_coord scale v < rh
     then RGBAAt img (src_coord scale u) (src_coord scale v) else Pix fin u v)"
  by (auto simp: sample_px_def Let_def Set_px_def as_image_def rgbaModel_RGBA_of fun_eq_iff)

lemma sample_row_spec:
  "Rect (sample_row scale w rw rh img y x fin) = Rect fin \<and>
   Pix (sample_row scale w rw rh img y x fin) = (\<lambda>u v.
     if In u v (Rect fin) \<and> v = y \<and> x \<le> u \<and> u < w \<and>
        src_coord scale u < rw \<and> src_coord scale v < rh
     then RGBAAt img (src_coord scale u) (src_coord scale v) else Pix fin u v)"
proof (induction scale w rw rh img y x fin rule: sample_row.induct)
  case (1 scale w rw rh img y x fin)
  show ?case
  proof (cases "x < w")
    case True
    let ?d = "sample_px scale rw rh img x y fin"
    have step: "sample_row scale w rw rh img y x fin = sample_row scale w rw rh img y (x + 1) ?d"
      using True by (simp add: sample_row.simps [of scale w rw rh img y x fin])
    have k: "x \<le> u \<longleftrightarrow> u = x \<or> x + 1 \<le> u" for u by linarith
    from "1.IH" [OF True] show ?thesis
      unfolding step using True by (auto simp: sample_px_spec fun_eq_iff k)
  next
    case False
    then have step: "sample_row scale w rw rh img y x fin = fin"
      by (simp add: sample_row.simps [of scale w rw rh img y x fin])
    show ?thesis unfolding step using False by (auto simp: fun_eq_iff)
  qed
qed

lemma sample_rows_spec:
  "Rect (sample_rows scale w h rw rh img y fin) = Rect fin \<and>
   Pix (sample_rows scale w h rw rh img y fin) = (\<lambda>u v.
     if In u v (Rect fin) \<and> y \<le> v \<and> v < h \<and> 0 \<le> u \<and> u < w \<and>
        src_coord scale u < rw \<and> src_coord scale v < rh
     then RGBAAt img (src_coord scale u) (src_coord scale v) else Pix fin u v)"
proof (induction scale w h rw rh img y fin rule: sample_rows.induct)
  case (1 scale w h rw rh img y fin)
  show ?case
  proof (cases "y < h")
    case True
    let ?d = "sample_row scale w rw rh img y 0 fin"
    have step: "sample_rows scale w h rw rh img y fin = sample_rows scale w h rw rh img (y + 1) ?d"
      using True by (simp add: sample_rows.simps [of scale w h rw rh img y fin])
    have k: "y \<le> v \<longleftrightarrow> v = y \<or> y + 1 \<le> v" for v by linarith
    from "1.IH" [OF True] show ?thesis
      unfolding step using True by (auto simp: sample_row_spec fun_eq_iff k)
  next
    case False
    then have step: "sample_rows scale w h rw rh img y fin = fin"
      by (simp add: sample_rows.simps [of scale w h rw rh img y fin])
    show ?thesis unfolding step using False by (auto simp: fun_eq_iff)
  qed
qed

lemma fill_row_Rect: "Rect (fill_row rw y x img) = Rect img"
proof (induction rw y x img rule: fill_row.induct)
  case (1 rw y x img)
  show ?case
  proof (cases "x < rw")
    case True
    with "1.IH" [OF True] show ?thesis
      by (simp add: fill_row.simps [of rw y x img] Set_px_def)
  next
    case False
    then show ?thesis by (simp add: fill_row.simps [of rw y x img])
  qed
qed

lemma fill_rows_Rect: "Rect (fill_rows rw rh y img) = Rect img"
proof (induction rw rh y img rule: fill_rows.induct)
  case (1 rw rh y img)
  show ?case
  proof (cases "y < rh")
    case True
    with "1.IH" [OF True] show ?thesis
      by (simp add: fill_rows.simps [of rw rh y img] fill_row_Rect)
  next
    case False
    then show ?thesis by (simp add: fill_rows.simps [of rw rh y img])
  qed
qed

lemma clamp_scale_finite:
  assumes "is_float32 requested" and "clamp_scale requested = Finite s"
  shows "float32 s = s \<and> 1 \<le> s \<and> s \<le> 4"
proof -
  have k: "float32 1 = 1" "float32 4 = 4" by code_simp+
  show ?thesis
  proof (cases requested)
    case (Finite r)
    with assms k show ?thesis
      by (auto simp: clamp_scale_def Let_def split: if_splits)
  next
    case PosInf
    with assms k show ?thesis by (auto simp: clamp_scale_def Let_def)
  next
    case NegInf
    with assms k show ?thesis by (auto simp: clamp_scale_def Let_def)
  next
    case NaN
    with assms show ?thesis by (simp add: clamp_scale_def Let_def)
  qed
qed

lemma working_canvas_Rect:
  assumes "intrinsic_size ic = (width, height)"
  shows "Rect (working_canvas e ic scale) =
     Rect_of 0 0 (go_int (float64 (width * scale))) (go_int (float64 (height * scale)))"
  using assms by (simp add: working_canvas_def Let_def fill_rows_Rect NewRGBA_def)

text \<open>
  Claim C6. When the clamped scale is not 1, the image returned by
  \<open>loadSVGWithScale\<close> has the intrinsic size \<^verbatim>\<open>int(width)\<close> by \<^verbatim>\<open>int(height)\<close>, not
  the size of the working canvas, and its pixel \<open>(x,y)\<close> is the pixel of the working
  canvas at \<open>(\<lfloor>x \<times> scale\<rfloor>, \<lfloor>y \<times> scale\<rfloor>)\<close> when these coordinates are below the
  size of the canvas, and the transparent pixel of the allocation otherwise. The
  requested scale is a \<^verbatim>\<open>float32\<close> value that the two tests bring to a finite scale;
  for coordinates below \<open>2\<^sup>2\<^sup>8\<close> the \<^verbatim>\<open>float64\<close> product of the code is exact.
\<close>

theorem point_sampling:
  assumes ic: "read_icon e path = Inr ic"
    and f: "is_float32 requested"
    and sc: "clamp_scale requested = Finite scale" and ne: "scale \<noteq> 1"
    and wh: "intrinsic_size ic = (width, height)"
    and rw: "renderWidth = go_int (float64 (width * scale))"
    and rh: "renderHeight = go_int (float64 (height * scale))"
    and x: "0 \<le> x" "x < go_int width" "x < 2 ^ 28"
    and y: "0 \<le> y" "y < go_int height" "y < 2 ^ 28"
  shows "fst (loadSVGWithScale e path requested) = Inr (rasterize e ic scale) \<and>
         Rect (working_canvas e ic scale) = Rect_of 0 0 renderWidth renderHeight \<and>
         Rect (rasterize e ic scale)
           = \<lparr>MinX = 0, MinY = 0, MaxX = go_int width, MaxY = go_int height\<rparr> \<and>
         RGBAAt (rasterize e ic scale) x y =
           (if \<lfloor>of_int x * scale\<rfloor> < renderWidth \<and> \<lfloor>of_int y * scale\<rfloor> < renderHeight
            then RGBAAt (working_canvas e ic scale) \<lfloor>of_int x * scale\<rfloor> \<lfloor>of_int y * scale\<rfloor>
            else transparent)"
proof -
  have s: "float32 scale = scale" "1 \<le> scale" "scale \<le> 4"
    using clamp_scale_finite [OF f sc] by simp_all
  have sx: "src_coord scale x = \<lfloor>of_int x * scale\<rfloor>"
    using src_coord_exact [OF s x(1,3)] .
  have sy: "src_coord scale y = \<lfloor>of_int y * scale\<rfloor>"
    using src_coord_exact [OF s y(1,3)] .
  have r0: "Rect_of 0 0 (go_int width) (go_int height)
      = \<lparr>MinX = 0, MinY = 0, MaxX = go_int width, MaxY = go_int height\<rparr>"
    using x y by (simp add: Rect_of_def)
  have ras: "rasterize e ic scale =
      sample_rows scale (go_int width) (go_int height) renderWidth renderHeight
        (working_canvas e ic scale) 0 (NewRGBA (Rect_of 0 0 (go_int width) (go_int height)))"
    using ne by (simp add: rasterize_def wh rw rh)
  have 1: "fst (loadSVGWithScale e path requested) = Inr (rasterize e ic scale)"
    by (simp add: loadSVGWithScale_def ic sc Let_def split: prod.splits)
  have 2: "Rect (working_canvas e ic scale) = Rect_of 0 0 renderWidth renderHeight"
    by (simp add: working_canvas_Rect [OF wh] rw rh)
  have 3: "Rect (rasterize e ic scale)
           = \<lparr>MinX = 0, MinY = 0, MaxX = go_int width, MaxY = go_int height\<rparr>"
    by (simp add: ras sample_rows_spec NewRGBA_def r0)
  have 4: "RGBAAt (rasterize e ic scale) x y =
           (if \<lfloor>of_int x * scale\<rfloor> < renderWidth \<and> \<lfloor>of_int y * scale\<rfloor> < renderHeight
            then RGBAAt (working_canvas e ic scale) \<lfloor>of_int x * scale\<rfloor> \<lfloor>of_int y * scale\<rfloor>
            else transparent)"
    unfolding RGBAAt_def [of "rasterize e ic scale"] 3
    using x y by (simp add: ras sample_rows_spec NewRGBA_def r0 In_def sx sy)
  show ?thesis using 1 2 3 4 by blast
qed

theorem point_sampling_witness:
  "fst (loadSVGWithScale env_svg ''a.svg'' (Finite 2)) = Inr (rasterize env_svg icon2 2) \<and>
   Rect (working_canvas env_svg icon2 2) = \<lparr>MinX = 0, MinY = 0, MaxX = 4, MaxY = 4\<rparr> \<and>
   Rect (rasterize env_svg icon2 2) = \<lparr>MinX = 0, MinY = 0, MaxX = 2, MaxY = 2\<rparr> \<and>
   RGBAAt (rasterize env_svg icon2 2) 1 0 = \<lparr>R = 0xFF, G = 0, B = 0, A = 0xFF\<rparr>"
proof -
  have a: "read_icon env_svg ''a.svg'' = Inr icon2" by (simp add: env_svg_def)
  have b0: "float32 2 = 2" by code_simp
  have b: "is_float32 (Finite 2)" by (simp add: b0)
  have c: "clamp_scale (Finite 2) = Finite 2" "(2::rat) \<noteq> 1"
    by (simp_all add: clamp_scale_def)
  have d: "intrinsic_size icon2 = (2, 2)" by (simp add: intrinsic_size_def icon2_def)
  have g: "go_int (float64 (2 * 2)) = 4" "go_int 2 = 2" by code_simp+
  have h: "RGBAAt (working_canvas env_svg icon2 2) 2 0 = \<lparr>R = 0xFF, G = 0, B = 0, A = 0xFF\<rparr>"
    by code_simp
  have fl: "\<lfloor>of_int 1 * (2::rat)\<rfloor> = 2" "\<lfloor>of_int 0 * (2::rat)\<rfloor> = 0" by simp_all
  from point_sampling [OF a b c d g(1) [symmetric] g(1) [symmetric], of 1 0]
  show ?thesis
    unfolding g fl by (simp add: h Rect_of_def)
qed

section \<open>Properties of the target dimensions\<close>









section \<open>Properties of saving and of the algorithm switch\<close>

lemma Ext_examples: "Ext ''in.png'' = ''.png''" "Ext ''a/b.c/out'' = []" "Ext ''o.JPG'' = ''.JPG''"
  by (simp_all add: Ext_def)

lemma ToLower_examples: "ToLower e ''.JPG'' = ''.jpg''" "ToLower e ''LiNeAr'' = ''linear''"
  by (simp_all add: ToLower_def lower_char_def char_of_eq_iff)

text \<open>
  The six names of the switch are their own lowercase forms, whatever the Unicode
  mapping does to other strings.
\<close>

lemma ToLower_names:
  "ToLower e ''nearest'' = ''nearest''" "ToLower e ''bilinear'' = ''bilinear''"
  "ToLower e ''linear'' = ''linear''" "ToLower e ''bicubic'' = ''bicubic''"
  "ToLower e ''cubic'' = ''cubic''" "ToLower e ''lanczos'' = ''lanczos''"
  by (simp_all add: ToLower_def lower_char_def)

text \<open>
  With the Unicode mapping of Go the switch also takes a name written with U+0130:
  in the sample world \<open>dotted_linear\<close> selects the bilinear filter.
\<close>

lemma pick_filter_dotted_linear: "pick_filter env_ok dotted_linear = Some Linear"
  by (simp add: pick_filter_def ToLower_def dotted_linear_def env_ok_def)

text \<open>
  Claim C9, as the specification states it, fails: a quality of one half lies in the
  range from 0 to 100, clamping its integer part to the range from 1 to 100 gives 1, and
  the code passes 90.
\<close>

theorem jpeg_quality_counterexample:
  "jpegQuality (1 / 2) = 90 \<and> max 1 (min 100 (go_int (1 / 2))) = 1"
  by (simp add: jpegQuality_def go_int_def)

lemma jpegQuality_range: "1 \<le> jpegQuality q \<and> jpegQuality q \<le> 100"
  by (simp add: jpegQuality_def Let_def)

lemma saveImage_events:
  "Encode p enc \<in> set (snd (saveImage e img outputPath quality)) \<Longrightarrow>
   pick_encoding (ToLower e (Ext outputPath)) quality = Some enc"
  by (auto simp: saveImage_def Let_def split: if_splits option.splits)

text \<open>
  Claim C9, amended. For a quality between 0 and 100 and an output path whose
  lowercased extension is \<open>.jpg\<close> or \<open>.jpeg\<close>, the integer quality is the integer
  part of the setting, except that a setting below 1 is replaced by 90; it always lies
  between 1 and 100, and it is the quality of every encoding that \<open>saveImage\<close> performs.
\<close>

theorem jpeg_quality:
  assumes "0 \<le> quality" and "quality \<le> 100"
    and "ToLower e (Ext outputPath) = ''.jpg'' \<or> ToLower e (Ext outputPath) = ''.jpeg''"
  shows "jpegQuality quality = (if quality < 1 then 90 else \<lfloor>quality\<rfloor>) \<and>
         1 \<le> jpegQuality quality \<and> jpegQuality quality \<le> 100 \<and>
         (\<forall>p enc. Encode p enc \<in> set (snd (saveImage e img outputPath quality)) \<longrightarrow>
            enc = JPEG (jpegQuality quality))"
proof -
  have "\<lfloor>quality\<rfloor> \<le> 100" using assms(2) by (simp add: floor_le_iff)
  moreover have "quality < 1 \<longleftrightarrow> \<lfloor>quality\<rfloor> < 1" by (simp add: floor_less_iff)
  ultimately have a: "jpegQuality quality = (if quality < 1 then 90 else \<lfloor>quality\<rfloor>)"
    using assms(1) by (simp add: jpegQuality_def go_int_def Let_def)
  have b: "enc = JPEG (jpegQuality quality)"
    if "Encode p enc \<in> set (snd (saveImage e img outputPath quality))" for p enc
    using saveImage_events [OF that] assms(3) by (auto simp: pick_encoding_def)
  show ?thesis using a b jpegQuality_range by blast
qed

theorem jpeg_quality_witness:
  "jpegQuality (171 / 2) = 85 \<and>
   snd (saveImage env_ok img1 ''out/o.JPG'' (171 / 2)) =
     [MkdirAll ''out/o.JPG'', CreateFile ''out/o.JPG'', Encode ''out/o.JPG'' (JPEG 85),
      Stdout OutputFileSize]"
proof -
  have e: "ToLower env_ok (Ext ''out/o.JPG'') = ''.jpg''"
    by (simp add: Ext_def ToLower_def lower_char_def char_of_eq_iff)
  have f: "\<lfloor>171 / 2 :: rat\<rfloor> = 85" by code_simp
  have "jpegQuality (171 / 2) = 85"
    using jpeg_quality [where quality = "171 / 2" and outputPath = "''out/o.JPG''"
        and e = env_ok and img = img1] e f by simp
  moreover have "mkdir_ok env_ok = (\<lambda>p. True)" "create_ok env_ok = (\<lambda>p. True)"
    "encode_ok env_ok = (\<lambda>p enc. True)" "stat_ok env_ok = (\<lambda>p. True)"
    by (simp_all add: env_ok_def)
  ultimately show ?thesis
    by (simp add: saveImage_def e pick_encoding_def)
qed

text \<open>
  Claim C10. The algorithm name is lowercased before the switch, so names that differ
  only in the case of their letters are treated alike; besides \<open>nearest\<close>,
  \<open>bilinear\<close>, \<open>bicubic\<close> and \<open>lanczos\<close> the switch accepts \<open>linear\<close> for the
  bilinear filter and \<open>cubic\<close> for the bicubic one; and for every name whose lowercase
  form is one of the six, \<open>ScaleImage\<close> does not fail with \<open>UnsupportedAlgorithm\<close>.
\<close>

theorem algorithm_names:
  assumes "ToLower e algorithm \<in>
             {''nearest'', ''bilinear'', ''linear'', ''bicubic'', ''cubic'', ''lanczos''}"
  shows "fst (ScaleImage e dflt inputPath outputPath factor width height algorithm quality svgScale)
           \<noteq> Some (UnsupportedAlgorithm name) \<and>
         pick_filter e algorithm \<noteq> None \<and>
         pick_filter e algorithm = pick_filter e (ToLower e algorithm) \<and>
         pick_filter e ''linear'' = Some Linear \<and> pick_filter e ''bilinear'' = Some Linear \<and>
         pick_filter e ''cubic'' = Some CatmullRom \<and> pick_filter e ''bicubic'' = Some CatmullRom \<and>
         pick_filter e ''nearest'' = Some NearestNeighbor \<and>
         pick_filter e ''lanczos'' = Some Lanczos"
proof -
  have idem: "ToLower e (ToLower e algorithm) = ToLower e algorithm"
    using assms ToLower_names [of e] by auto
  have some: "pick_filter e algorithm \<noteq> None"
    using assms by (auto simp: pick_filter_def Let_def)
  have load: "fst (load_input e inputPath svgScale) = Inl err \<Longrightarrow> err \<noteq> UnsupportedAlgorithm name" for err
    by (auto simp: load_input_def split: if_splits prod.splits sum.splits)
  have save: "fst (saveImage e img outputPath quality) \<noteq> Some (UnsupportedAlgorithm name)" for img
    by (auto simp: saveImage_def Let_def split: option.splits)
  have "fst (ScaleImage e dflt inputPath outputPath factor width height algorithm quality svgScale)
           \<noteq> Some (UnsupportedAlgorithm name)"
  proof (cases "load_input e inputPath svgScale")
    case (Pair r evs)
    show ?thesis
    proof (cases r)
      case (Inl err)
      with Pair load [of err] show ?thesis by (simp add: ScaleImage_def)
    next
      case (Inr img)
      from some obtain flt where flt: "pick_filter e algorithm = Some flt" by blast
      show ?thesis
        using Pair Inr flt save
        by (simp add: ScaleImage_def Let_def split: prod.splits) (metis fst_conv)
    qed
  qed
  moreover have "pick_filter e ''linear'' = Some Linear" "pick_filter e ''bilinear'' = Some Linear"
    "pick_filter e ''cubic'' = Some CatmullRom" "pick_filter e ''bicubic'' = Some CatmullRom"
    "pick_filter e ''nearest'' = Some NearestNeighbor" "pick_filter e ''lanczos'' = Some Lanczos"
    by (simp_all add: pick_filter_def ToLower_names)
  ultimately show ?thesis using some idem by (simp add: pick_filter_def)
qed

theorem algorithm_names_witness:
  "ScaleImage env_ok (0, 0) ''in.png'' ''out.png'' (1 / 2) 0 0 ''LiNeAr'' 90 (Finite 2) =
     (None, [OpenFile ''in.png'', Stdout (ScalingFromTo 1 1 0 0), MkdirAll ''out.png'',
             CreateFile ''out.png'', Encode ''out.png'' PNG, Stdout OutputFileSize]) \<and>
   pick_filter env_ok ''CUBIC'' = Some CatmullRom"
proof -
  have l: "ToLower env_ok ''LiNeAr'' = ''linear''" "ToLower env_ok ''CUBIC'' = ''cubic''"
    by (simp_all add: ToLower_def lower_char_def char_of_eq_iff)
  have p: "pick_filter env_ok ''LiNeAr'' = pick_filter env_ok ''linear''"
    "pick_filter env_ok ''CUBIC'' = pick_filter env_ok ''cubic''"
    "pick_filter env_ok ''cubic'' = Some CatmullRom" "pick_filter env_ok ''linear'' = Some Linear"
    using algorithm_names [where e = env_ok and algorithm = "''LiNeAr''"]
      algorithm_names [where e = env_ok and algorithm = "''CUBIC''"] l by simp_all
  have x: "Ext ''in.png'' = ''.png''" "Ext ''out.png'' = ''.png''" by (simp_all add: Ext_def)
  have y: "ToLower env_ok ''.png'' = ''.png''" by (simp add: ToLower_def lower_char_def)
  have d: "target_dims 1 1 (1 / 2) 0 0 = Some (0, 0)"
    by code_simp
  have m: "decode_file env_ok = (\<lambda>p. Inr img1)" "mkdir_ok env_ok = (\<lambda>p. True)"
    "create_ok env_ok = (\<lambda>p. True)" "encode_ok env_ok = (\<lambda>p enc. True)"
    "stat_ok env_ok = (\<lambda>p. True)" "resize env_ok = (\<lambda>img w h f. img)"
    by (simp_all add: env_ok_def)
  show ?thesis
    by (simp add: ScaleImage_def load_input_def LoadImage_def x y p saveImage_def pick_encoding_def
        m img1_def Rect_of_def Dx_def Dy_def d Let_def)
qed








end
